theory Spec2Isabelle
  imports
    Complex_Main
    "HOL-Library.Char_ord"
    "HOL-Library.List_Lexorder"
    "HOL-Library.Multiset"
begin

section \<open>Text and character classes\<close>

text \<open>
  A transcript is a Python \<open>str\<close>. The model takes its characters from the one-byte
  range (code points below 256), so a text is a \<open>string\<close>. In that range line 5 of
  \<open>preprocess\<close> (which rewrites the narrow no-break space U+202F to a space) changes nothing,
  since U+202F does not occur; \<open>\d\<close> is the ten ASCII digits, and \<open>\s\<close> (as \<open>str.strip\<close>) is the whitespace of
  that range: TAB, LF, VT, FF, CR, the separators 0x1C to 0x1F, the space, NEL and the
  no-break space.
\<close>

definition is_digit :: "char \<Rightarrow> bool" where
  "is_digit c = (c \<in> set ''0123456789'')"

definition is_space :: "char \<Rightarrow> bool" where
  "is_space c = (c \<in> set [CHR 0x09, CHR 0x0A, CHR 0x0B, CHR 0x0C, CHR 0x0D,
                            CHR 0x1C, CHR 0x1D, CHR 0x1E, CHR 0x1F, CHR 0x20,
                            CHR 0x85, CHR 0xA0])"

definition strip :: "string \<Rightarrow> string" where
  \<comment> \<open>\<open>str.strip()\<close>\<close>
  "strip s = rev (dropWhile is_space (rev (dropWhile is_space s)))"

fun starts_with :: "string \<Rightarrow> string \<Rightarrow> bool" where
  "starts_with [] s = True"
| "starts_with (p # ps) [] = False"
| "starts_with (p # ps) (c # cs) = (p = c \<and> starts_with ps cs)"

fun contains :: "string \<Rightarrow> string \<Rightarrow> bool" where
  \<comment> \<open>\<open>sub in s\<close>\<close>
  "contains sub [] = (sub = [])"
| "contains sub (c # cs) = (starts_with sub (c # cs) \<or> contains sub cs)"

fun split_first :: "string \<Rightarrow> string \<Rightarrow> string \<times> string" where
  \<comment> \<open>\<open>s.split(sep, 1)\<close> for a text that contains \<open>sep\<close>: the parts around its
      first occurrence; a text without \<open>sep\<close> comes back whole\<close>
  "split_first sep [] = ([], [])"
| "split_first sep (c # cs) =
     (if starts_with sep (c # cs) then ([], drop (length sep) (c # cs))
      else (case split_first sep cs of (a, b) \<Rightarrow> (c # a, b)))"

section \<open>The entry pattern\<close>

text \<open>
  The pattern of \<open>preprocess\<close> (flags \<open>IGNORECASE | DOTALL\<close>) is
  \<^verbatim>\<open>(\d{1,2}/\d{1,2}/\d{2,4},\s\d{1,2}:\d{2}\s(?:am|pm))\s-\s([^:]+?):\s(.+?)(?=(?:\n\d{1,2}/\d{1,2}/\d{2,4},)|\Z)\<close>.
  A backtracking matcher is modelled by the list of its successes: a parser maps
  the remaining text to the pairs (text consumed, text left), in the order in which
  the engine tries them, and the engine's match is the head of the list.
\<close>

type_synonym parser = "string \<Rightarrow> (string \<times> string) list"

definition lit :: "char \<Rightarrow> parser" where
  "lit c s = (case s of [] \<Rightarrow> [] | x # r \<Rightarrow> if x = c then [([x], r)] else [])"

definition cls :: "(char \<Rightarrow> bool) \<Rightarrow> parser" where
  "cls P s = (case s of [] \<Rightarrow> [] | x # r \<Rightarrow> if P x then [([x], r)] else [])"

definition greedy :: "(char \<Rightarrow> bool) \<Rightarrow> nat \<Rightarrow> nat \<Rightarrow> parser" where
  \<comment> \<open>\<open>X{lo,hi}\<close>: the longest run first, then shorter ones\<close>
  "greedy P lo hi s =
     (let k = length (takeWhile P (take hi s))
      in map (\<lambda>n. (take n s, drop n s)) (rev [lo..<Suc k]))"

definition lazy_plus :: "(char \<Rightarrow> bool) \<Rightarrow> parser" where
  \<comment> \<open>\<open>X+?\<close>: one character first, then longer runs\<close>
  "lazy_plus P s =
     (let k = length (takeWhile P s)
      in map (\<lambda>n. (take n s, drop n s)) [1..<Suc k])"

definition seq :: "parser \<Rightarrow> parser \<Rightarrow> parser" where
  "seq p q s = concat (map (\<lambda>(a, r). map (\<lambda>(b, r'). (a @ b, r')) (q r)) (p s))"

definition alt :: "parser \<Rightarrow> parser \<Rightarrow> parser" where
  "alt p q s = p s @ q s"

definition ci :: "char \<Rightarrow> char \<Rightarrow> parser" where
  \<comment> \<open>a letter under \<open>IGNORECASE\<close>, given in both cases\<close>
  "ci l u = cls (\<lambda>c. c = l \<or> c = u)"

definition am_pm :: parser where
  \<comment> \<open>\<open>(?:am|pm)\<close>\<close>
  "am_pm = alt (seq (ci CHR ''a'' CHR ''A'') (ci CHR ''m'' CHR ''M''))
               (seq (ci CHR ''p'' CHR ''P'') (ci CHR ''m'' CHR ''M''))"

definition date_prefix :: parser where
  \<comment> \<open>\<open>\d{1,2}/\d{1,2}/\d{2,4},\<close>\<close>
  "date_prefix =
     seq (greedy is_digit 1 2) (seq (lit CHR ''/'')
    (seq (greedy is_digit 1 2) (seq (lit CHR ''/'')
    (seq (greedy is_digit 2 4) (lit CHR '','')))))"

definition date_time :: parser where
  \<comment> \<open>group 1\<close>
  "date_time =
     seq date_prefix (seq (cls is_space)
    (seq (greedy is_digit 1 2) (seq (lit CHR '':'')
    (seq (greedy is_digit 2 2) (seq (cls is_space) am_pm)))))"

definition dash :: parser where
  \<comment> \<open>\<open>\s-\s\<close>\<close>
  "dash = seq (cls is_space) (seq (lit CHR ''-'') (cls is_space))"

definition colon_space :: parser where
  \<comment> \<open>\<open>:\s\<close>\<close>
  "colon_space = seq (lit CHR '':'') (cls is_space)"

definition lookahead :: "string \<Rightarrow> bool" where
  \<comment> \<open>\<open>(?=(?:\n\d{1,2}/\d{1,2}/\d{2,4},)|\Z)\<close>\<close>
  "lookahead r = (seq (lit CHR 0x0A) date_prefix r \<noteq> [] \<or> r = [])"

record entry_match =
  g1 :: string     \<comment> \<open>group 1: date and time\<close>
  sep1 :: string   \<comment> \<open>the text matched by \<open>\s-\s\<close>\<close>
  g2 :: string     \<comment> \<open>group 2: sender\<close>
  sep2 :: string   \<comment> \<open>the text matched by \<open>:\s\<close>\<close>
  g3 :: string     \<comment> \<open>group 3: message\<close>
  rest :: string   \<comment> \<open>the text after the match\<close>

definition entry_matches :: "string \<Rightarrow> entry_match list" where
  "entry_matches s =
     [\<lparr>g1 = a, sep1 = b, g2 = c, sep2 = d, g3 = e, rest = r\<rparr>.
        (a, r1) \<leftarrow> date_time s,
        (b, r2) \<leftarrow> dash r1,
        (c, r3) \<leftarrow> lazy_plus (\<lambda>x. x \<noteq> CHR '':'') r2,
        (d, r4) \<leftarrow> colon_space r3,
        (e, r) \<leftarrow> lazy_plus (\<lambda>x. True) r4,
        lookahead r]"

definition match_at :: "string \<Rightarrow> entry_match option" where
  \<comment> \<open>the engine's match of the pattern at the start of the text\<close>
  "match_at s = (case entry_matches s of [] \<Rightarrow> None | m # _ \<Rightarrow> Some m)"

subsection \<open>What a match consumes\<close>

definition sound :: "parser \<Rightarrow> bool" where
  "sound p = (\<forall>s a r. (a, r) \<in> set (p s) \<longrightarrow> s = a @ r)"

lemma sound_lit: "sound (lit c)"
  by (auto simp: sound_def lit_def split: list.splits if_splits)

lemma sound_cls: "sound (cls P)"
  by (auto simp: sound_def cls_def split: list.splits if_splits)

lemma sound_greedy: "sound (greedy P lo hi)"
  by (auto simp: sound_def greedy_def Let_def)

lemma sound_lazy_plus: "sound (lazy_plus P)"
  by (auto simp: sound_def lazy_plus_def Let_def)

lemma sound_seq: "sound p \<Longrightarrow> sound q \<Longrightarrow> sound (seq p q)"
  by (fastforce simp: sound_def seq_def)

lemma sound_alt: "sound p \<Longrightarrow> sound q \<Longrightarrow> sound (alt p q)"
  by (auto simp: sound_def alt_def)

lemma sound_am_pm: "sound am_pm"
  by (simp add: am_pm_def ci_def sound_alt sound_seq sound_cls)

lemma sound_date_prefix: "sound date_prefix"
  by (simp add: date_prefix_def sound_seq sound_lit sound_greedy)

lemma sound_date_time: "sound date_time"
  by (simp add: date_time_def sound_seq sound_lit sound_cls sound_greedy
      sound_date_prefix sound_am_pm)

lemma sound_dash: "sound dash"
  by (simp add: dash_def sound_seq sound_lit sound_cls)

lemma sound_colon_space: "sound colon_space"
  by (simp add: colon_space_def sound_seq sound_lit sound_cls)

lemma soundD: "sound p \<Longrightarrow> (a, r) \<in> set (p s) \<Longrightarrow> s = a @ r"
  by (simp add: sound_def)

lemma lazy_plus_run:
  "(a, r) \<in> set (lazy_plus P s) \<Longrightarrow> a \<noteq> [] \<and> (\<forall>x \<in> set a. P x)"
proof -
  assume "(a, r) \<in> set (lazy_plus P s)"
  then obtain n where n: "1 \<le> n" "n \<le> length (takeWhile P s)" and a: "a = take n s"
    by (auto simp: lazy_plus_def Let_def)
  have "length (takeWhile P s) \<le> length s"
    by (rule length_takeWhile_le)
  with n a have "a \<noteq> []" by auto
  moreover have "take n s = take n (takeWhile P s)"
    using n(2) by (metis append_eq_conv_conj takeWhile_dropWhile_id take_all_iff take_append
        diff_is_0_eq take_0 append_Nil2)
  then have "\<forall>x \<in> set a. P x"
    using a by (metis in_set_takeD set_takeWhileD)
  ultimately show ?thesis by simp
qed

lemma entry_matches_parts:
  assumes "m \<in> set (entry_matches s)"
  shows "s = g1 m @ sep1 m @ g2 m @ sep2 m @ g3 m @ rest m"
    and "(g1 m, sep1 m @ g2 m @ sep2 m @ g3 m @ rest m) \<in> set (date_time s)"
    and "g2 m \<noteq> []" and "CHR '':'' \<notin> set (g2 m)" and "g3 m \<noteq> []"
    and "lookahead (rest m)"
proof -
  from assms obtain a r1 b r2 c r3 d r4 e r where
    m: "m = \<lparr>g1 = a, sep1 = b, g2 = c, sep2 = d, g3 = e, rest = r\<rparr>"
    and p: "(a, r1) \<in> set (date_time s)" "(b, r2) \<in> set (dash r1)"
      "(c, r3) \<in> set (lazy_plus (\<lambda>x. x \<noteq> CHR '':'') r2)"
      "(d, r4) \<in> set (colon_space r3)" "(e, r) \<in> set (lazy_plus (\<lambda>x. True) r4)"
    and l: "lookahead r"
    by (auto simp: entry_matches_def split: if_splits)
  have e: "s = a @ r1" "r1 = b @ r2" "r2 = c @ r3" "r3 = d @ r4" "r4 = e @ r"
    using p soundD[OF sound_date_time] soundD[OF sound_dash] soundD[OF sound_lazy_plus]
      soundD[OF sound_colon_space] by blast+
  show "s = g1 m @ sep1 m @ g2 m @ sep2 m @ g3 m @ rest m"
    using e m by simp
  show "(g1 m, sep1 m @ g2 m @ sep2 m @ g3 m @ rest m) \<in> set (date_time s)"
    using e m p(1) by simp
  show "g2 m \<noteq> []" "CHR '':'' \<notin> set (g2 m)"
    using lazy_plus_run[OF p(3)] m by auto
  show "g3 m \<noteq> []"
    using lazy_plus_run[OF p(5)] m by auto
  show "lookahead (rest m)"
    using l m by simp
qed

lemma match_at_in: "match_at s = Some m \<Longrightarrow> m \<in> set (entry_matches s)"
  by (auto simp: match_at_def split: list.splits)

lemma match_at_shorter: "match_at s = Some m \<Longrightarrow> length (rest m) < length s"
proof -
  assume "match_at s = Some m"
  then have m: "m \<in> set (entry_matches s)" by (rule match_at_in)
  have "length s = length (g1 m @ sep1 m @ g2 m @ sep2 m @ g3 m @ rest m)"
    using entry_matches_parts(1)[OF m] by simp
  moreover have "0 < length (g2 m)"
    using entry_matches_parts(3)[OF m] by simp
  ultimately show ?thesis by simp
qed

subsection \<open>The scan\<close>

text \<open>
  \<open>pattern.findall(data)\<close> tries the pattern at the current position; after a match
  it goes on behind the match, otherwise one character further. The model keeps the
  whole match (the three groups of \<open>findall\<close> are \<open>g1\<close>, \<open>g2\<close> and \<open>g3\<close>).
\<close>

function findall :: "string \<Rightarrow> entry_match list" where
  "findall s =
     (case match_at s of
        Some m \<Rightarrow> m # findall (rest m)
      | None \<Rightarrow> (case s of [] \<Rightarrow> [] | c # cs \<Rightarrow> findall cs))"
  by pat_completeness auto
termination
  by (relation "measure length") (auto dest: match_at_shorter)

declare findall.simps [simp del]

section \<open>Reading the date and time\<close>

text \<open>
  \<open>pd.to_datetime(column, format='%d/%m/%y, %I:%M %p')\<close> reads every text of the
  column with the one format and raises \<open>ValueError\<close> at the first text that does not
  fit. The library's reader is modelled as it works: the format becomes the pattern
  \<^verbatim>\<open>(3[0-1]|[1-2]\d|0[1-9]|[1-9]| [1-9])/(1[0-2]|0[1-9]|[1-9])/(\d\d),\s+(1[0-2]|0[1-9]|[1-9]):([0-5]\d|\d)\s+(am|pm)\<close>,
  matched without regard to case at the start of the text; text left over behind the
  match is an error; a two-digit year up to 68 is in 2000, a later one in 1900; hour 12
  is 0 before noon; and the day has to exist in its month.
\<close>

record datetime =
  year :: nat
  month :: nat
  day :: nat
  hour :: nat
  minute :: nat

datatype error =
    DateParseError    \<comment> \<open>\<open>ValueError\<close> of \<open>pd.to_datetime\<close>\<close>
  | InvalidParameter  \<comment> \<open>\<open>ValueError\<close> of \<open>CountVectorizer\<close> for \<open>max_features=0\<close>\<close>
  | EmptyVocabulary   \<comment> \<open>\<open>ValueError\<close> of \<open>CountVectorizer.fit_transform\<close>\<close>
  | NoWords           \<comment> \<open>\<open>ValueError\<close> of \<open>WordCloud.generate\<close>\<close>

definition is_nonzero_digit :: "char \<Rightarrow> bool" where
  "is_nonzero_digit c = (c \<in> set ''123456789'')"

definition re_d :: parser where
  "re_d = alt (seq (lit CHR ''3'') (cls (\<lambda>c. c \<in> set ''01'')))
         (alt (seq (cls (\<lambda>c. c \<in> set ''12'')) (cls is_digit))
         (alt (seq (lit CHR ''0'') (cls is_nonzero_digit))
         (alt (cls is_nonzero_digit)
              (seq (lit CHR '' '') (cls is_nonzero_digit)))))"

definition re_m :: parser where
  \<comment> \<open>also the pattern of \<open>%I\<close>\<close>
  "re_m = alt (seq (lit CHR ''1'') (cls (\<lambda>c. c \<in> set ''012'')))
         (alt (seq (lit CHR ''0'') (cls is_nonzero_digit))
              (cls is_nonzero_digit))"

definition re_y :: parser where
  "re_y = seq (cls is_digit) (cls is_digit)"

definition re_M :: parser where
  "re_M = alt (seq (cls (\<lambda>c. c \<in> set ''012345'')) (cls is_digit)) (cls is_digit)"

definition spaces :: parser where
  \<comment> \<open>\<open>\s+\<close>\<close>
  "spaces s = greedy is_space 1 (length s) s"

definition int_of :: "string \<Rightarrow> nat" where
  \<comment> \<open>\<open>int(text)\<close> for digits, possibly behind a space\<close>
  "int_of s = foldl (\<lambda>a c. 10 * a + (of_char c - 48)) 0 (filter is_digit s)"

definition is_leap :: "nat \<Rightarrow> bool" where
  "is_leap y = (y mod 4 = 0 \<and> (y mod 100 \<noteq> 0 \<or> y mod 400 = 0))"

definition days_in_month :: "nat \<Rightarrow> nat \<Rightarrow> nat" where
  "days_in_month y m =
     (if m = 2 then (if is_leap y then 29 else 28)
      else if m \<in> {4, 6, 9, 11} then 30 else 31)"

definition strptime_matches ::
  "string \<Rightarrow> (string \<times> string \<times> string \<times> string \<times> string \<times> string \<times> string) list" where
  "strptime_matches s =
     [(d, m, y, i, mi, p, r).
        (d, r1) \<leftarrow> re_d s, (x1, r2) \<leftarrow> lit CHR ''/'' r1,
        (m, r3) \<leftarrow> re_m r2, (x2, r4) \<leftarrow> lit CHR ''/'' r3,
        (y, r5) \<leftarrow> re_y r4, (x3, r6) \<leftarrow> lit CHR '','' r5,
        (x4, r7) \<leftarrow> spaces r6,
        (i, r8) \<leftarrow> re_m r7, (x5, r9) \<leftarrow> lit CHR '':'' r8,
        (mi, r10) \<leftarrow> re_M r9,
        (x6, r11) \<leftarrow> spaces r10,
        (p, r) \<leftarrow> am_pm r11]"

definition strptime :: "string \<Rightarrow> datetime option" where
  "strptime s =
     (case strptime_matches s of
        [] \<Rightarrow> None
      | (d, m, y, i, mi, p, r) # _ \<Rightarrow>
          if r \<noteq> [] then None
          else
            let yy = int_of y;
                yr = (if yy \<le> 68 then 2000 + yy else 1900 + yy);
                h12 = int_of i;
                h = (if hd p \<in> set ''aA'' then (if h12 = 12 then 0 else h12)
                     else (if h12 = 12 then 12 else h12 + 12))
            in if int_of d \<le> days_in_month yr (int_of m)
               then Some \<lparr>year = yr, month = int_of m, day = int_of d,
                          hour = h, minute = int_of mi\<rparr>
               else None)"

fun to_datetime :: "string list \<Rightarrow> error + datetime list" where
  "to_datetime [] = Inr []"
| "to_datetime (d # ds) =
     (case strptime d of
        None \<Rightarrow> Inl DateParseError
      | Some t \<Rightarrow> (case to_datetime ds of Inl e \<Rightarrow> Inl e | Inr ts \<Rightarrow> Inr (t # ts)))"

section \<open>The parser\<close>

text \<open>
  A row of the data frame that \<open>preprocess\<close> returns. Its further columns \<open>year\<close>,
  \<open>month\<close>, \<open>day\<close>, \<open>hour\<close> and \<open>minute\<close> are read off the column \<open>date\<close> and are the
  fields of the \<open>datetime\<close>.
\<close>

record message =
  date :: datetime
  Sender :: string
  Message :: string

definition user_messages :: "string \<Rightarrow> string list" where
  \<comment> \<open>the column \<open>user_message\<close>: \<open>f"{s}: {t}"\<close> of sender and stripped message\<close>
  "user_messages data =
     (let matches = findall data;
          senders = map g2 matches;
          msg = map (\<lambda>m. strip (g3 m)) matches
      in map (\<lambda>(s, t). s @ '': '' @ t) (zip senders msg))"

definition split_row :: "string \<Rightarrow> string \<times> string" where
  \<comment> \<open>the loop body of lines 31 to 40\<close>
  "split_row msg =
     (if contains '': '' msg then split_first '': '' msg
      else (''group_notification'', msg))"

definition preprocess :: "string \<Rightarrow> error + message list" where
  "preprocess data =
     (let dates = map g1 (findall data);
          messages = user_messages data
      in case to_datetime dates of
           Inl e \<Rightarrow> Inl e
         | Inr ts \<Rightarrow>
             Inr (map (\<lambda>(t, msg). case split_row msg of
                          (sender, text) \<Rightarrow> \<lparr>date = t, Sender = sender, Message = text\<rparr>)
                    (zip ts messages)))"

section \<open>Properties of the parser\<close>

lemma starts_with_iff: "starts_with p s \<longleftrightarrow> (\<exists>t. s = p @ t)"
  by (induction p s rule: starts_with.induct) auto

lemma contains_iff: "contains sub s \<longleftrightarrow> (\<exists>a b. s = a @ sub @ b)"
proof (induction s)
  case Nil
  then show ?case by auto
next
  case (Cons c cs)
  show ?case
  proof
    assume "contains sub (c # cs)"
    then consider "starts_with sub (c # cs)" | "contains sub cs" by auto
    then show "\<exists>a b. c # cs = a @ sub @ b"
    proof cases
      case 1
      then obtain t where "c # cs = sub @ t" by (auto simp: starts_with_iff)
      then have "c # cs = [] @ sub @ t" by simp
      then show ?thesis by blast
    next
      case 2
      then obtain a b where "cs = a @ sub @ b" using Cons.IH by auto
      then have "c # cs = (c # a) @ sub @ b" by simp
      then show ?thesis by blast
    qed
  next
    assume "\<exists>a b. c # cs = a @ sub @ b"
    then obtain a b where ab: "c # cs = a @ sub @ b" by auto
    show "contains sub (c # cs)"
    proof (cases a)
      case Nil
      then have "starts_with sub (c # cs)"
        unfolding starts_with_iff using ab by auto
      then show ?thesis by simp
    next
      case (Cons x a')
      then have "cs = a' @ sub @ b" using ab by simp
      then show ?thesis using Cons.IH by auto
    qed
  qed
qed

lemma split_first_parts:
  "contains sub s \<Longrightarrow> s = fst (split_first sub s) @ sub @ snd (split_first sub s)"
proof (induction s)
  case Nil
  then show ?case by simp
next
  case (Cons c cs)
  show ?case
  proof (cases "starts_with sub (c # cs)")
    case True
    then have "split_first sub (c # cs) = ([], drop (length sub) (c # cs))" by simp
    moreover obtain t where "c # cs = sub @ t"
      using True by (auto simp: starts_with_iff)
    ultimately show ?thesis by simp
  next
    case False
    then have "contains sub cs" using Cons.prems by simp
    then show ?thesis using False Cons.IH by (simp add: case_prod_beta)
  qed
qed

lemma split_first_least:
  "s = a @ sub @ b \<Longrightarrow> length (fst (split_first sub s)) \<le> length a"
proof (induction s arbitrary: a)
  case Nil
  then show ?case by simp
next
  case (Cons c cs)
  show ?case
  proof (cases "starts_with sub (c # cs)")
    case True
    then show ?thesis by simp
  next
    case False
    then have "a \<noteq> []" using Cons.prems by (auto simp: starts_with_iff)
    then obtain x a' where a: "a = x # a'" by (cases a) auto
    then have "cs = a' @ sub @ b" using Cons.prems by simp
    then have "length (fst (split_first sub cs)) \<le> length a'" by (rule Cons.IH)
    then show ?thesis using False a by (simp add: case_prod_beta)
  qed
qed

lemma split_first_colon_free:
  "CHR '':'' \<notin> set s \<Longrightarrow> split_first '': '' (s @ '': '' @ t) = (s, t)"
  by (induction s) auto

lemma split_row_user_message:
  "CHR '':'' \<notin> set s \<Longrightarrow> split_row (s @ '': '' @ t) = (s, t)"
proof -
  assume s: "CHR '':'' \<notin> set s"
  have "contains '': '' (s @ '': '' @ t)"
    unfolding contains_iff by blast
  then show ?thesis
    using split_first_colon_free[OF s] by (simp add: split_row_def)
qed

lemma findall_in_matches:
  "m \<in> set (findall s) \<Longrightarrow> \<exists>s'. m \<in> set (entry_matches s')"
proof (induction s rule: findall.induct)
  case (1 s)
  show ?case
  proof (cases "match_at s")
    case None
    show ?thesis
    proof (cases s)
      case Nil
      then show ?thesis using None "1.prems" by (subst (asm) findall.simps) simp
    next
      case (Cons c cs)
      then have "m \<in> set (findall cs)"
        using None "1.prems" by (subst (asm) findall.simps) simp
      then show ?thesis using "1.IH"(1)[OF None Cons] by simp
    qed
  next
    case (Some m')
    then have "m = m' \<or> m \<in> set (findall (rest m'))"
      using "1.prems" by (subst (asm) findall.simps) auto
    then show ?thesis
      using Some "1.IH"(2) match_at_in by blast
  qed
qed

lemma findall_sender_colon_free: "m \<in> set (findall s) \<Longrightarrow> CHR '':'' \<notin> set (g2 m)"
  using findall_in_matches entry_matches_parts(4) by blast

lemma to_datetime_Inl:
  "to_datetime ds = Inl e \<longleftrightarrow> e = DateParseError \<and> (\<exists>d \<in> set ds. strptime d = None)"
  by (induction ds arbitrary: e) (auto split: option.splits sum.splits)

lemma to_datetime_Inr: "to_datetime ds = Inr ts \<Longrightarrow> ts = map (\<lambda>d. the (strptime d)) ds"
  by (induction ds arbitrary: ts) (auto split: option.splits sum.splits)

lemma length_user_messages: "length (user_messages data) = length (findall data)"
  by (simp add: user_messages_def Let_def)

text \<open>
  C3 (as the code has it). \<open>preprocess\<close> raises exactly when the date and time of some
  matched entry does not fit the fixed format. In every other case, a transcript with
  no matching entry among them, it returns one row per matched entry.
\<close>

theorem preprocess_raises_iff:
  "(preprocess data = Inl DateParseError \<longleftrightarrow> (\<exists>m \<in> set (findall data). strptime (g1 m) = None))
   \<and> (\<forall>e. preprocess data = Inl e \<longrightarrow> e = DateParseError)
   \<and> (\<forall>rows. preprocess data = Inr rows \<longrightarrow> length rows = length (findall data))"
proof (cases "to_datetime (map g1 (findall data))")
  case (Inl e)
  then have "e = DateParseError" "\<exists>m \<in> set (findall data). strptime (g1 m) = None"
    by (auto simp: to_datetime_Inl)
  then show ?thesis using Inl by (auto simp: preprocess_def)
next
  case (Inr ts)
  then have "\<not> (\<exists>m \<in> set (findall data). strptime (g1 m) = None)"
    using to_datetime_Inl[of "map g1 (findall data)" DateParseError] by auto
  moreover have "length ts = length (findall data)"
    using to_datetime_Inr[OF Inr] by simp
  ultimately show ?thesis
    using Inr by (auto simp: preprocess_def length_user_messages)
qed

theorem preprocess_raises_iff_witness:
  "preprocess ''1/1/23, 10:00 am - Alice: Hello'' =
     Inr [\<lparr>date = \<lparr>year = 2023, month = 1, day = 1, hour = 10, minute = 0\<rparr>,
           Sender = ''Alice'', Message = ''Hello''\<rparr>]
   \<and> length (findall ''1/1/23, 10:00 am - Alice: Hello'') = 1
   \<and> preprocess ''31/2/23, 10:00 am - Bob: Hi'' = Inl DateParseError
   \<and> (\<exists>m \<in> set (findall ''31/2/23, 10:00 am - Bob: Hi''). strptime (g1 m) = None)"
proof -
  have a: "preprocess ''1/1/23, 10:00 am - Alice: Hello'' =
     Inr [\<lparr>date = \<lparr>year = 2023, month = 1, day = 1, hour = 10, minute = 0\<rparr>,
           Sender = ''Alice'', Message = ''Hello''\<rparr>]"
    by code_simp
  have b: "preprocess ''31/2/23, 10:00 am - Bob: Hi'' = Inl DateParseError"
    by code_simp
  show ?thesis
    using a b preprocess_raises_iff[of "''1/1/23, 10:00 am - Alice: Hello''"]
      preprocess_raises_iff[of "''31/2/23, 10:00 am - Bob: Hi''"]
    by simp
qed

text \<open>
  A transcript without any matching entry is not an error: the result is the empty
  table.
\<close>

theorem preprocess_no_entries_counterexample:
  "findall ''no entry here'' = [] \<and> preprocess ''no entry here'' = Inr []"
  by code_simp

text \<open>
  C1 (as the code has it). The fragment of a row is \<open>f"{s}: {t}"\<close>, built from the
  groups of the match, so it always holds the separator. For every text \<open>msg\<close> the loop
  body gives: without a separator the sender is \<open>group_notification\<close> and the whole text
  is the body; with a separator the text is split at its first occurrence. So the sender
  is \<open>group_notification\<close> exactly when the text has no separator or begins with
  \<open>group_notification: \<close> itself. And for every matched entry the row gets the sender
  of group 2 and the stripped text of group 3.
\<close>

theorem split_row_sender:
  "(\<not> contains '': '' msg \<longrightarrow> split_row msg = (''group_notification'', msg))
   \<and> (contains '': '' msg \<longrightarrow>
        msg = fst (split_row msg) @ '': '' @ snd (split_row msg)
        \<and> (\<forall>a b. msg = a @ '': '' @ b \<longrightarrow> length (fst (split_row msg)) \<le> length a))
   \<and> (fst (split_row msg) = ''group_notification''
        \<longleftrightarrow> \<not> contains '': '' msg \<or> starts_with ''group_notification: '' msg)
   \<and> (\<forall>m \<in> set (findall data).
          contains '': '' (g2 m @ '': '' @ strip (g3 m))
          \<and> split_row (g2 m @ '': '' @ strip (g3 m)) = (g2 m, strip (g3 m)))"
proof (intro conjI)
  show "\<not> contains '': '' msg \<longrightarrow> split_row msg = (''group_notification'', msg)"
    by (simp add: split_row_def)
  show "contains '': '' msg \<longrightarrow>
        msg = fst (split_row msg) @ '': '' @ snd (split_row msg)
        \<and> (\<forall>a b. msg = a @ '': '' @ b \<longrightarrow> length (fst (split_row msg)) \<le> length a)"
    using split_first_parts[of "'': ''" msg] split_first_least[of msg _ "'': ''"]
    by (auto simp: split_row_def)
  show "fst (split_row msg) = ''group_notification''
        \<longleftrightarrow> \<not> contains '': '' msg \<or> starts_with ''group_notification: '' msg"
  proof (cases "contains '': '' msg")
    case False
    then show ?thesis by (simp add: split_row_def)
  next
    case True
    have "fst (split_first '': '' msg) = ''group_notification''
          \<longleftrightarrow> starts_with ''group_notification: '' msg"
    proof
      assume a: "fst (split_first '': '' msg) = ''group_notification''"
      have "msg = fst (split_first '': '' msg) @ '': '' @ snd (split_first '': '' msg)"
        using True by (rule split_first_parts)
      then have "msg = ''group_notification: '' @ snd (split_first '': '' msg)"
        using a by simp
      then show "starts_with ''group_notification: '' msg"
        unfolding starts_with_iff by blast
    next
      assume "starts_with ''group_notification: '' msg"
      then obtain t where "msg = ''group_notification'' @ '': '' @ t"
        by (auto simp: starts_with_iff)
      moreover have "split_first '': '' (''group_notification'' @ '': '' @ t)
                     = (''group_notification'', t)"
        by (rule split_first_colon_free) simp
      ultimately show "fst (split_first '': '' msg) = ''group_notification''"
        by simp
    qed
    then show ?thesis using True by (simp add: split_row_def)
  qed
  show "\<forall>m \<in> set (findall data).
          contains '': '' (g2 m @ '': '' @ strip (g3 m))
          \<and> split_row (g2 m @ '': '' @ strip (g3 m)) = (g2 m, strip (g3 m))"
  proof
    fix m assume "m \<in> set (findall data)"
    then have "CHR '':'' \<notin> set (g2 m)" by (rule findall_sender_colon_free)
    then have "split_row (g2 m @ '': '' @ strip (g3 m)) = (g2 m, strip (g3 m))"
      by (rule split_row_user_message)
    moreover have "contains '': '' (g2 m @ '': '' @ strip (g3 m))"
      unfolding contains_iff by blast
    ultimately show "contains '': '' (g2 m @ '': '' @ strip (g3 m))
          \<and> split_row (g2 m @ '': '' @ strip (g3 m)) = (g2 m, strip (g3 m))"
      by simp
  qed
qed

theorem split_row_sender_witness:
  "\<not> contains '': '' ''Messages are end-to-end encrypted''
   \<and> split_row ''Messages are end-to-end encrypted''
       = (''group_notification'', ''Messages are end-to-end encrypted'')
   \<and> contains '': '' ''Alice: see: this''
   \<and> ''Alice: see: this''
       = fst (split_row ''Alice: see: this'') @ '': '' @ snd (split_row ''Alice: see: this'')
   \<and> length (fst (split_row ''Alice: see: this'')) \<le> length ''Alice: see''
   \<and> fst (split_row ''Alice: see: this'') \<noteq> ''group_notification''
   \<and> map (\<lambda>m. (g2 m, g3 m)) (findall ''1/1/23, 10:00 am - Alice: see: this '')
       = [(''Alice'', ''see: this '')]
   \<and> split_row (''Alice'' @ '': '' @ strip ''see: this '') = (''Alice'', strip ''see: this '')"
proof -
  let ?n = "''Messages are end-to-end encrypted''"
  let ?m = "''Alice: see: this''"
  let ?d = "''1/1/23, 10:00 am - Alice: see: this ''"
  let ?e = "\<lparr>g1 = ''1/1/23, 10:00 am'', sep1 = '' - '', g2 = ''Alice'', sep2 = '': '',
            g3 = ''see: this '', rest = []\<rparr>"
  have n: "\<not> contains '': '' ?n"
    by simp
  have c: "contains '': '' ?m"
    by simp
  have e: "?m = ''Alice: see'' @ '': '' @ ''this''"
    by simp
  have s: "\<not> starts_with ''group_notification: '' ?m"
    by simp
  note tn = split_row_sender[of ?n "[]"]
  note tm = split_row_sender[of ?m "[]"]
  have 1: "split_row ?n = (''group_notification'', ?n)"
    using tn n by blast
  have 2: "?m = fst (split_row ?m) @ '': '' @ snd (split_row ?m)"
    using tm c by blast
  have "\<forall>a b. ?m = a @ '': '' @ b \<longrightarrow> length (fst (split_row ?m)) \<le> length a"
    using tm c by blast
  then have 3: "length (fst (split_row ?m)) \<le> length ''Alice: see''"
    using e by blast
  have 4: "fst (split_row ?m) \<noteq> ''group_notification''"
    using tm c s by blast
  have f: "findall ?d = [?e]"
    by code_simp
  then have 5: "map (\<lambda>m. (g2 m, g3 m)) (findall ?d) = [(''Alice'', ''see: this '')]"
    by simp
  have "\<forall>m \<in> set (findall ?d).
          contains '': '' (g2 m @ '': '' @ strip (g3 m))
          \<and> split_row (g2 m @ '': '' @ strip (g3 m)) = (g2 m, strip (g3 m))"
    using split_row_sender[of "[]" ?d] by blast
  then have "split_row (g2 ?e @ '': '' @ strip (g3 ?e)) = (g2 ?e, strip (g3 ?e))"
    unfolding f by simp
  then have 6: "split_row (''Alice'' @ '': '' @ strip ''see: this '')
                = (''Alice'', strip ''see: this '')"
    by simp
  show ?thesis
    using n 1 c 2 3 4 5 6 by blast
qed

text \<open>
  A participant whose name is \<open>group_notification\<close>: the fragment holds the separator and
  the sender of the row is \<open>group_notification\<close> all the same.
\<close>

theorem split_row_sentinel_counterexample:
  "user_messages ''1/1/23, 10:00 am - group_notification: hi'' = [''group_notification: hi'']
   \<and> contains '': '' ''group_notification: hi''
   \<and> preprocess ''1/1/23, 10:00 am - group_notification: hi'' =
       Inr [\<lparr>date = \<lparr>year = 2023, month = 1, day = 1, hour = 10, minute = 0\<rparr>,
             Sender = ''group_notification'', Message = ''hi''\<rparr>]"
  by code_simp

section \<open>The aggregator\<close>

text \<open>
  The functions of \<open>helper.py\<close> work on the data frame of \<open>preprocess\<close>, a list of
  rows here. Tables of other libraries that they consult are parameters of the model:
  \<open>is_emoji\<close> is membership in \<open>emoji.EMOJI_DATA\<close>, \<open>find_urls\<close> is
  \<open>URLExtract().find_urls\<close>, \<open>analyzer\<close> is the analyzer of
  \<open>CountVectorizer(stop_words='english')\<close> (lower case, tokens of two or more word
  characters, English stop words removed), \<open>process_text\<close> is \<open>WordCloud.process_text\<close>,
  \<open>polarity\<close> is \<open>TextBlob(m).sentiment.polarity\<close>, and \<open>argsort\<close> is numpy's
  \<open>argsort\<close> with the default \<open>kind='quicksort'\<close>, which promises a sorting permutation
  and no order among equal keys.
\<close>

definition is_media :: "message \<Rightarrow> bool" where
  "is_media m = contains ''<Media omitted>'' (Message m)"

definition filter_media :: "message list \<Rightarrow> message list" where
  "filter_media df =
     filter (\<lambda>m. \<not> is_media m \<and> Message m \<noteq> [] \<and> Message m \<notin> set [''.'', ''?'']) df"

fun split_ws :: "string \<Rightarrow> string \<Rightarrow> string list" where
  \<comment> \<open>\<open>str.split()\<close>: the words between runs of whitespace; the first argument is
      the word being read, last character first\<close>
  "split_ws w [] = (if w = [] then [] else [rev w])"
| "split_ws w (c # cs) =
     (if is_space c then (if w = [] then split_ws [] cs else rev w # split_ws [] cs)
      else split_ws (c # w) cs)"

definition scope :: "string \<Rightarrow> message list \<Rightarrow> message list" where
  \<comment> \<open>\<open>df if selected == 'Overall' else df[df['Sender'] == selected]\<close>\<close>
  "scope selected_user df =
     (if selected_user = ''Overall'' then df else filter (\<lambda>m. Sender m = selected_user) df)"

record stats =
  total_messages :: nat
  total_words :: nat
  total_media :: nat
  total_emojis :: nat
  total_links :: nat

definition fetch_stats ::
  "(char \<Rightarrow> bool) \<Rightarrow> (string \<Rightarrow> string list) \<Rightarrow> string \<Rightarrow> message list \<Rightarrow> stats" where
  "fetch_stats is_emoji find_urls selected_user df =
     (let subset = scope selected_user df;
          text_df = filter_media subset;
          y = concat (map (\<lambda>m. find_urls (Message m)) df)
      in \<lparr>total_messages = length subset,
          total_words = sum_list (map (\<lambda>m. length (split_ws [] (Message m))) text_df),
          total_media = length (filter is_media subset),
          total_emojis = sum_list (map (\<lambda>m. length (filter is_emoji (Message m))) text_df),
          total_links = length y\<rparr>)"

definition first_seen :: "'a list \<Rightarrow> 'a list" where
  \<comment> \<open>the distinct values in the order of their first occurrence\<close>
  "first_seen xs = rev (remdups (rev xs))"

definition sort_values_desc :: "(int list \<Rightarrow> nat list) \<Rightarrow> ('a \<times> nat) list \<Rightarrow> ('a \<times> nat) list" where
  \<comment> \<open>\<open>sort_values('count', ascending=False)\<close>: pandas reverses the keys, sorts them
      ascending with \<open>argsort\<close>, and reverses the result\<close>
  "sort_values_desc argsort rows =
     (let n = length rows;
          items = rev (map (\<lambda>r. int (snd r)) rows);
          idx = rev [0..<n];
          indexer = rev (map (\<lambda>i. idx ! i) (argsort items))
      in map (\<lambda>i. rows ! i) indexer)"

definition groupby_size :: "message list \<Rightarrow> (string \<times> nat) list" where
  \<comment> \<open>\<open>groupby('Sender').size()\<close>: one row per sender, the senders in ascending order\<close>
  "groupby_size df =
     map (\<lambda>s. (s, length (filter (\<lambda>m. Sender m = s) df))) (sort (remdups (map Sender df)))"

definition messages_per_user :: "(int list \<Rightarrow> nat list) \<Rightarrow> message list \<Rightarrow> (string \<times> nat) list" where
  "messages_per_user argsort df =
     take 10 (sort_values_desc argsort (groupby_size (filter_media df)))"






text \<open>
  C6. The link count of \<open>fetch_stats\<close> is taken over the whole frame \<open>df\<close>, not over
  the rows of the selected sender: line 49 iterates \<open>df['Message']\<close> where the other
  four numbers use \<open>subset\<close>. Scoped to Alice, who sent no link, the count still holds
  the links of Bob's message.
\<close>

theorem fetch_stats_links_ignore_scope:
  "total_links (fetch_stats is_emoji find_urls ''Alice''
     [\<lparr>date = d1, Sender = ''Alice'', Message = ''hi''\<rparr>,
      \<lparr>date = d2, Sender = ''Bob'', Message = ''see http://x.co''\<rparr>])
   = length (find_urls ''hi'') + length (find_urls ''see http://x.co'')
   \<and> total_messages (fetch_stats is_emoji find_urls ''Alice''
     [\<lparr>date = d1, Sender = ''Alice'', Message = ''hi''\<rparr>,
      \<lparr>date = d2, Sender = ''Bob'', Message = ''see http://x.co''\<rparr>]) = 1"
  by (simp add: fetch_stats_def scope_def Let_def)

lemma fetch_stats_links_any_scope:
  "total_links (fetch_stats is_emoji find_urls selected_user df)
   = total_links (fetch_stats is_emoji find_urls ''Overall'' df)"
  by (simp add: fetch_stats_def Let_def)

subsection \<open>Sorting by count\<close>

definition is_argsort :: "(int list \<Rightarrow> nat list) \<Rightarrow> bool" where
  \<comment> \<open>what numpy promises of \<open>argsort\<close>: a permutation of the positions that sorts\<close>
  "is_argsort f =
     (\<forall>xs. mset (f xs) = mset [0..<length xs] \<and> sorted (map (\<lambda>i. xs ! i) (f xs)))"

definition stable_argsort :: "int list \<Rightarrow> nat list" where
  \<comment> \<open>insertion sort on the keys, which is what numpy's quicksort runs on an array
      of at most 16 elements\<close>
  "stable_argsort xs = map snd (sort_key fst (zip xs [0..<length xs]))"

lemma is_argsort_stable: "is_argsort stable_argsort"
proof -
  have "mset (stable_argsort xs) = mset [0..<length xs]" for xs
  proof -
    let ?z = "zip xs [0..<length xs]"
    have "mset (sort_key fst ?z) = mset ?z"
      by (rule mset_sort)
    then have "mset (map snd (sort_key fst ?z)) = mset (map snd ?z)"
      by (metis mset_map)
    moreover have "map snd ?z = [0..<length xs]"
      by (simp add: map_snd_zip)
    ultimately have "mset (stable_argsort xs) = mset [0..<length xs]"
      by (simp only: stable_argsort_def)
    then show ?thesis .
  qed
  moreover have "sorted (map (\<lambda>i. xs ! i) (stable_argsort xs))" for xs
  proof -
    let ?z = "zip xs [0..<length xs]"
    have "\<forall>p \<in> set (sort_key fst ?z). xs ! snd p = fst p"
      by (auto simp: set_zip)
    then have "map (\<lambda>p. xs ! snd p) (sort_key fst ?z) = map fst (sort_key fst ?z)"
      by (intro map_cong) auto
    then have "map (\<lambda>i. xs ! i) (stable_argsort xs) = map fst (sort_key fst ?z)"
      by (simp add: stable_argsort_def comp_def)
    then show ?thesis
      by simp
  qed
  ultimately show ?thesis
    by (simp add: is_argsort_def)
qed

lemma mset_sort_values_desc:
  assumes "is_argsort f"
  shows "mset (sort_values_desc f rows) = mset rows"
proof -
  let ?n = "length rows"
  let ?items = "rev (map (\<lambda>r. int (snd r)) rows)"
  let ?idx = "rev [0..<?n]"
  have p: "mset (f ?items) = mset [0..<?n]"
    using assms by (simp add: is_argsort_def)
  have "mset (map (\<lambda>i. ?idx ! i) (f ?items)) = image_mset (\<lambda>i. ?idx ! i) (mset [0..<?n])"
    using p by (metis mset_map)
  also have "\<dots> = mset (map (\<lambda>i. ?idx ! i) [0..<length ?idx])"
    by simp
  also have "\<dots> = mset ?idx"
    by (simp only: map_nth)
  finally have q: "mset (rev (map (\<lambda>i. ?idx ! i) (f ?items))) = mset [0..<?n]"
    by simp
  have "mset (sort_values_desc f rows)
        = image_mset (\<lambda>i. rows ! i) (mset (rev (map (\<lambda>i. ?idx ! i) (f ?items))))"
    unfolding sort_values_desc_def Let_def by (simp only: mset_map)
  also have "\<dots> = mset (map (\<lambda>i. rows ! i) [0..<?n])"
    unfolding q by simp
  also have "\<dots> = mset rows"
    by (simp only: map_nth)
  finally show ?thesis .
qed

lemma sorted_sort_values_desc:
  assumes "is_argsort f"
  shows "sorted_wrt (\<lambda>a b. snd b \<le> snd a) (sort_values_desc f rows)"
proof -
  let ?n = "length rows"
  let ?items = "rev (map (\<lambda>r. int (snd r)) rows)"
  let ?idx = "rev [0..<?n]"
  have p: "mset (f ?items) = mset [0..<?n]" and s: "sorted (map (\<lambda>i. ?items ! i) (f ?items))"
    using assms by (simp_all add: is_argsort_def)
  have r: "\<forall>i \<in> set (f ?items). i < ?n"
    using p by (metis atLeastLessThan_iff set_mset_mset set_upt)
  have "int (snd (rows ! (?idx ! i))) = ?items ! i" if "i < ?n" for i
    using that by (simp add: rev_nth)
  then have e: "map (\<lambda>i. int (snd (rows ! (?idx ! i)))) (f ?items) = map (\<lambda>i. ?items ! i) (f ?items)"
    using r by (intro map_cong) auto
  have "sorted (map (\<lambda>i. int (snd (rows ! (?idx ! i)))) (f ?items))"
    using s by (simp only: e)
  then have "sorted_wrt (\<lambda>i j. snd (rows ! (?idx ! i)) \<le> snd (rows ! (?idx ! j))) (f ?items)"
    by (simp add: sorted_wrt_map)
  then have "sorted_wrt (\<lambda>a b. snd a \<le> snd b) (map (\<lambda>i. rows ! (?idx ! i)) (f ?items))"
    by (simp add: sorted_wrt_map)
  then have "sorted_wrt (\<lambda>a b. snd b \<le> snd a) (rev (map (\<lambda>i. rows ! (?idx ! i)) (f ?items)))"
    by (simp add: sorted_wrt_rev)
  moreover have "sort_values_desc f rows = rev (map (\<lambda>i. rows ! (?idx ! i)) (f ?items))"
    unfolding sort_values_desc_def Let_def by (simp add: rev_map comp_def)
  ultimately show ?thesis by simp
qed

lemma groupby_size_rows:
  "set (groupby_size df) = (\<lambda>s. (s, length (filter (\<lambda>m. Sender m = s) df))) ` Sender ` set df"
  by (auto simp: groupby_size_def)

lemma groupby_size_senders: "map fst (groupby_size df) = sort (remdups (map Sender df))"
  by (simp add: groupby_size_def comp_def)

lemma filter_nonempty_length: "x \<in> set xs \<Longrightarrow> P x \<Longrightarrow> 0 < length (filter P xs)"
  by (induction xs) auto

lemma groupby_size_mset:
  assumes "mset xs = mset ys"
  shows "groupby_size xs = groupby_size ys"
proof -
  have "set (map Sender xs) = set (map Sender ys)"
    using assms by (metis mset_eq_setD set_map)
  then have "sort (remdups (map Sender xs)) = sort (remdups (map Sender ys))"
    by (metis sorted_list_of_set_sort_remdups)
  moreover have "length (filter P xs) = length (filter P ys)" for P
    using assms by (metis mset_filter size_mset)
  ultimately show ?thesis
    by (simp add: groupby_size_def)
qed

lemma filter_media_mset: "mset xs = mset ys \<Longrightarrow> mset (filter_media xs) = mset (filter_media ys)"
  by (simp add: filter_media_def)

text \<open>
  C7 (as the code has it). \<open>messages_per_user\<close> returns one row for each sender of a
  substantive message, cut off after 10 rows, in descending order of the count of
  substantive messages; each count is the number of substantive messages of its sender
  and is positive; and a sender that is left out has no more messages than any sender
  listed. The table does not depend on the order of the messages: the rows are formed in
  ascending order of the sender's name and then sorted by count, so a different order of
  the same messages gives the same table, and the order in which senders first occur
  decides nothing among equal counts.
\<close>

theorem messages_per_user_top:
  assumes "is_argsort argsort"
  shows "length (messages_per_user argsort df) = min 10 (card (Sender ` set (filter_media df)))
    \<and> sorted_wrt (\<lambda>a b. snd b \<le> snd a) (messages_per_user argsort df)
    \<and> distinct (map fst (messages_per_user argsort df))
    \<and> (\<forall>r \<in> set (messages_per_user argsort df).
          snd r = length (filter (\<lambda>m. Sender m = fst r) (filter_media df)) \<and> 0 < snd r)
    \<and> (\<forall>s \<in> Sender ` set (filter_media df).
          s \<in> fst ` set (messages_per_user argsort df)
          \<or> (\<forall>r \<in> set (messages_per_user argsort df).
                length (filter (\<lambda>m. Sender m = s) (filter_media df)) \<le> snd r))
    \<and> (\<forall>df'. mset df' = mset df \<longrightarrow>
          messages_per_user argsort df' = messages_per_user argsort df)"
proof -
  let ?T = "filter_media df"
  let ?G = "groupby_size ?T"
  let ?L = "sort_values_desc argsort ?G"
  let ?R = "messages_per_user argsort df"
  let ?cnt = "\<lambda>s. length (filter (\<lambda>m. Sender m = s) ?T)"
  have R: "?R = take 10 ?L"
    by (simp add: messages_per_user_def)
  have m: "mset ?L = mset ?G"
    using assms by (rule mset_sort_values_desc)
  then have setL: "set ?L = set ?G"
    by (rule mset_eq_setD)
  have srt: "sorted_wrt (\<lambda>a b. snd b \<le> snd a) ?L"
    using assms by (rule sorted_sort_values_desc)
  have "length ?L = length ?G"
    using m by (rule mset_eq_length)
  also have "\<dots> = card (Sender ` set ?T)"
    by (simp add: groupby_size_def length_remdups_card_conv)
  finally have 1: "length ?R = min 10 (card (Sender ` set ?T))"
    by (simp add: R min.commute)
  have 2: "sorted_wrt (\<lambda>a b. snd b \<le> snd a) ?R"
    unfolding R using srt by (metis append_take_drop_id sorted_wrt_append)
  have "mset (map fst ?L) = mset (map fst ?G)"
    using m by (metis mset_map)
  moreover have "distinct (map fst ?G)"
    by (simp add: groupby_size_senders)
  ultimately have "distinct (map fst ?L)"
    by (metis mset_eq_imp_distinct_iff)
  then have 3: "distinct (map fst ?R)"
    unfolding R by (simp add: take_map[symmetric])
  have sub: "set ?R \<subseteq> set ?G"
    unfolding R using setL by (metis set_take_subset)
  have 4: "\<forall>r \<in> set ?R. snd r = ?cnt (fst r) \<and> 0 < snd r"
  proof
    fix r assume "r \<in> set ?R"
    then have "r \<in> set ?G" using sub by blast
    then obtain x where x: "x \<in> set ?T" and r: "r = (Sender x, ?cnt (Sender x))"
      by (auto simp: groupby_size_rows)
    have "0 < ?cnt (Sender x)"
      using x by (intro filter_nonempty_length[of x]) simp_all
    then show "snd r = ?cnt (fst r) \<and> 0 < snd r"
      using r by simp
  qed
  have 5: "\<forall>s \<in> Sender ` set ?T. s \<in> fst ` set ?R \<or> (\<forall>r \<in> set ?R. ?cnt s \<le> snd r)"
  proof
    fix s assume "s \<in> Sender ` set ?T"
    then have "(s, ?cnt s) \<in> set ?G"
      by (auto simp: groupby_size_rows)
    moreover have "set ?L = set (take 10 ?L) \<union> set (drop 10 ?L)"
      by (metis append_take_drop_id set_append)
    ultimately consider "(s, ?cnt s) \<in> set (take 10 ?L)" | "(s, ?cnt s) \<in> set (drop 10 ?L)"
      using setL by blast
    then show "s \<in> fst ` set ?R \<or> (\<forall>r \<in> set ?R. ?cnt s \<le> snd r)"
    proof cases
      case 1
      then have "s \<in> fst ` set ?R" unfolding R by force
      then show ?thesis ..
    next
      case 2
      have "sorted_wrt (\<lambda>a b. snd b \<le> snd a) (take 10 ?L @ drop 10 ?L)"
        using srt by simp
      then have "\<forall>a \<in> set (take 10 ?L). \<forall>b \<in> set (drop 10 ?L). snd b \<le> snd a"
        unfolding sorted_wrt_append by blast
      then have "\<forall>r \<in> set ?R. ?cnt s \<le> snd r"
        unfolding R using 2 by force
      then show ?thesis ..
    qed
  qed
  have 6: "\<forall>df'. mset df' = mset df \<longrightarrow> messages_per_user argsort df' = ?R"
  proof (intro allI impI)
    fix df' assume "mset df' = mset df"
    then have "groupby_size (filter_media df') = ?G"
      by (intro groupby_size_mset filter_media_mset)
    then show "messages_per_user argsort df' = ?R"
      by (simp add: messages_per_user_def)
  qed
  show ?thesis
    using 1 2 3 4 5 6 by blast
qed

definition jan23 :: "nat \<Rightarrow> nat \<Rightarrow> datetime" where
  \<comment> \<open>a full hour of a day of January 2023, for the examples\<close>
  "jan23 d h = \<lparr>year = 2023, month = 1, day = d, hour = h, minute = 0\<rparr>"

definition row :: "datetime \<Rightarrow> string \<Rightarrow> string \<Rightarrow> message" where
  "row t s b = \<lparr>date = t, Sender = s, Message = b\<rparr>"

theorem messages_per_user_top_witness:
  "is_argsort stable_argsort
   \<and> messages_per_user stable_argsort
        [row (jan23 1 10) ''Bob'' ''hi'', row (jan23 1 11) ''Carol'' ''one'',
         row (jan23 1 12) ''Alice'' ''<Media omitted>'', row (jan23 1 13) ''Carol'' ''two'']
      = [(''Carol'', 2), (''Bob'', 1)]
   \<and> length (messages_per_user stable_argsort
        [row (jan23 1 10) ''Bob'' ''hi'', row (jan23 1 11) ''Carol'' ''one'',
         row (jan23 1 12) ''Alice'' ''<Media omitted>'', row (jan23 1 13) ''Carol'' ''two''])
      = min 10 (card (Sender ` set (filter_media
        [row (jan23 1 10) ''Bob'' ''hi'', row (jan23 1 11) ''Carol'' ''one'',
         row (jan23 1 12) ''Alice'' ''<Media omitted>'', row (jan23 1 13) ''Carol'' ''two''])))
   \<and> sorted_wrt (\<lambda>a b. snd b \<le> snd a) (messages_per_user stable_argsort
        [row (jan23 1 10) ''Bob'' ''hi'', row (jan23 1 11) ''Carol'' ''one'',
         row (jan23 1 12) ''Alice'' ''<Media omitted>'', row (jan23 1 13) ''Carol'' ''two''])
   \<and> messages_per_user stable_argsort
        [row (jan23 1 13) ''Carol'' ''two'', row (jan23 1 11) ''Carol'' ''one'',
         row (jan23 1 12) ''Alice'' ''<Media omitted>'', row (jan23 1 10) ''Bob'' ''hi'']
      = [(''Carol'', 2), (''Bob'', 1)]"
proof -
  let ?df = "[row (jan23 1 10) ''Bob'' ''hi'', row (jan23 1 11) ''Carol'' ''one'',
         row (jan23 1 12) ''Alice'' ''<Media omitted>'', row (jan23 1 13) ''Carol'' ''two'']"
  let ?df' = "[row (jan23 1 13) ''Carol'' ''two'', row (jan23 1 11) ''Carol'' ''one'',
         row (jan23 1 12) ''Alice'' ''<Media omitted>'', row (jan23 1 10) ''Bob'' ''hi'']"
  have e: "messages_per_user stable_argsort ?df = [(''Carol'', 2), (''Bob'', 1)]"
    by code_simp
  have p: "mset ?df' = mset ?df"
    by (simp add: add_mset_commute)
  note t = messages_per_user_top[OF is_argsort_stable, of ?df]
  note l = t[THEN conjunct1]
  note s = t[THEN conjunct2, THEN conjunct1]
  note u = t[THEN conjunct2, THEN conjunct2, THEN conjunct2, THEN conjunct2, THEN conjunct2]
  have "messages_per_user stable_argsort ?df' = messages_per_user stable_argsort ?df"
    by (rule u[rule_format, OF p])
  then have q: "messages_per_user stable_argsort ?df' = [(''Carol'', 2), (''Bob'', 1)]"
    using e by (rule trans)
  show ?thesis
    by (intro conjI is_argsort_stable e l s q)
qed

text \<open>
  Bob writes first, Alice second, one message each: the row of Alice comes first. And
  whatever the sort does among equal counts, the two orders of the two messages give the
  same table, so in one of them the sender met first is listed second.
\<close>

theorem messages_per_user_ties_counterexample:
  "messages_per_user stable_argsort
     [row (jan23 1 10) ''Bob'' ''hi'', row (jan23 1 11) ''Alice'' ''yo'']
   = [(''Alice'', 1), (''Bob'', 1)]
   \<and> (\<forall>argsort.
        messages_per_user argsort [row (jan23 1 10) ''Bob'' ''hi'', row (jan23 1 11) ''Alice'' ''yo'']
        = messages_per_user argsort [row (jan23 1 11) ''Alice'' ''yo'', row (jan23 1 10) ''Bob'' ''hi''])"
proof -
  have a: "messages_per_user stable_argsort
     [row (jan23 1 10) ''Bob'' ''hi'', row (jan23 1 11) ''Alice'' ''yo'']
   = [(''Alice'', 1), (''Bob'', 1)]"
    by code_simp
  have "mset [row (jan23 1 10) ''Bob'' ''hi'', row (jan23 1 11) ''Alice'' ''yo'']
        = mset [row (jan23 1 11) ''Alice'' ''yo'', row (jan23 1 10) ''Bob'' ''hi'']"
    by (simp add: add_mset_commute)
  then have "groupby_size (filter_media [row (jan23 1 10) ''Bob'' ''hi'', row (jan23 1 11) ''Alice'' ''yo''])
        = groupby_size (filter_media [row (jan23 1 11) ''Alice'' ''yo'', row (jan23 1 10) ''Bob'' ''hi''])"
    by (intro groupby_size_mset filter_media_mset)
  then show ?thesis
    using a by (simp add: messages_per_user_def)
qed

subsection \<open>Shares of the senders\<close>



lemma distinct_first_seen: "distinct (first_seen xs)"
  by (simp add: first_seen_def)

lemma set_first_seen: "set (first_seen xs) = set xs"
  by (simp add: first_seen_def)










subsection \<open>Calendar\<close>

definition days_from_civil :: "datetime \<Rightarrow> int" where
  \<comment> \<open>the number of the day, counted from 1 January 1970\<close>
  "days_from_civil t =
     (let y = int (year t) - (if month t \<le> 2 then 1 else 0);
          era = y div 400;
          yoe = y - era * 400;
          mp = (int (month t) + 9) mod 12;
          doy = (153 * mp + 2) div 5 + int (day t) - 1;
          doe = yoe * 365 + yoe div 4 - yoe div 100 + doy
      in era * 146097 + doe - 719468)"

definition weekday :: "datetime \<Rightarrow> nat" where
  \<comment> \<open>\<open>dt.day_name()\<close>, as the position in Monday to Sunday: 0 is Monday\<close>
  "weekday t = nat ((days_from_civil t + 3) mod 7)"


subsection \<open>Tables over time\<close>

definition day_name :: "nat \<Rightarrow> string" where
  \<comment> \<open>\<open>dt.day_name()\<close> of the weekday at a position in Monday to Sunday\<close>
  "day_name d =
     [''Monday'', ''Tuesday'', ''Wednesday'', ''Thursday'', ''Friday'', ''Saturday'', ''Sunday''] ! d"

record heatmap =
  hm_hours :: "nat list"        \<comment> \<open>the index: the labels of the rows\<close>
  hm_days :: "nat list"         \<comment> \<open>the columns: weekdays as positions in Monday to Sunday\<close>
  hm_cells :: "nat list list"   \<comment> \<open>one list per row\<close>

definition activity_heatmap :: "message list \<Rightarrow> heatmap" where
  \<comment> \<open>\<open>heat\<close> has a row for every pair of weekday and hour that occurs, and
      \<open>groupby(['weekday','hour'])\<close> sorts these rows by the name of the weekday, then by
      the hour. \<open>pivot(index='hour', columns='weekday', values='count')\<close> unstacks the
      weekday: the rows of the table are the hours that occur, ascending; the columns are
      the seven categories, Monday to Sunday, if all of them occur, and otherwise (unused
      levels are removed) the weekdays that occur, in the order of their first rows in
      \<open>heat\<close>. \<open>fillna(0)\<close> fills a cell without a row in \<open>heat\<close> with 0\<close>
  "activity_heatmap df =
     (let text_df = filter_media df;
          heat = sort_key (\<lambda>(d, h). day_name d) (sort_key snd
                   (remdups (map (\<lambda>m. (weekday (date m), hour (date m))) text_df)));
          hours = sort (remdups (map snd heat));
          used = first_seen (map fst heat);
          days = (if length used = 7 then [0..<7] else used)
      in \<lparr>hm_hours = hours, hm_days = days,
          hm_cells = map (\<lambda>h. map (\<lambda>d. length (filter
              (\<lambda>m. hour (date m) = h \<and> weekday (date m) = d) text_df)) days) hours\<rparr>)"



definition mean :: "rat list \<Rightarrow> rat option" where
  \<comment> \<open>\<open>None\<close> is the \<open>NaN\<close> that pandas gives for the mean of nothing\<close>
  "mean xs = (if xs = [] then None else Some (sum_list xs / of_nat (length xs)))"

definition sentiment_time_series ::
  "(string \<Rightarrow> rat) \<Rightarrow> nat \<Rightarrow> message list \<Rightarrow> (int \<times> rat option) list" where
  \<comment> \<open>\<open>resample(window)['sentiment'].mean()\<close> for a window of \<open>w\<close> days (7 for the
      default \<open>'7D'\<close>): the bins start at midnight of the first day, and there is a row
      for every bin up to the one of the last message\<close>
  "sentiment_time_series polarity w df =
     (let text_df = filter_media df;
          ds = map (\<lambda>m. days_from_civil (date m)) text_df
      in if ds = [] then []
         else let d0 = Min (set ds);
                  last_bin = nat ((Max (set ds) - d0) div int w)
              in map (\<lambda>j. (d0 + int (j * w),
                           mean (map (\<lambda>m. polarity (Message m))
                             (filter (\<lambda>m. nat ((days_from_civil (date m) - d0) div int w) = j)
                                text_df))))
                   [0..<Suc last_bin])"

subsection \<open>Words and emojis\<close>





section \<open>Properties of the aggregator\<close>

lemma distinct_bounded_length:
  assumes "distinct (xs :: nat list)" and "\<forall>x \<in> set xs. x < k"
  shows "length xs \<le> k"
proof -
  have "set xs \<subseteq> {0..<k}" using assms(2) by auto
  then have "card (set xs) \<le> card {0..<k}" by (intro card_mono) auto
  then show ?thesis using assms(1) by (simp add: distinct_card)
qed

lemma distinct_full_set:
  assumes "distinct (xs :: nat list)" and "\<forall>x \<in> set xs. x < k" and "length xs = k"
  shows "set xs = {0..<k}"
proof -
  have "set xs \<subseteq> {0..<k}"
    using assms(2) by auto
  moreover have "card (set xs) = card {0..<k}"
    using assms(1,3) by (simp add: distinct_card)
  ultimately show ?thesis
    by (intro card_subset_eq) simp_all
qed

text \<open>
  C4 (as the code has it). The heat map has one row for each hour at which a substantive
  message was sent, in ascending order, and one column for each weekday on which one was
  sent: at most 24 rows and at most 7 columns, and none for an empty selection. Every row
  has a cell for every column, and the cell holds the number of substantive messages of
  its hour and weekday, which is 0 where there is none.
\<close>

theorem activity_heatmap_shape:
  "set (hm_hours (activity_heatmap df)) = (\<lambda>m. hour (date m)) ` set (filter_media df)
   \<and> sorted (hm_hours (activity_heatmap df)) \<and> distinct (hm_hours (activity_heatmap df))
   \<and> set (hm_days (activity_heatmap df)) = (\<lambda>m. weekday (date m)) ` set (filter_media df)
   \<and> distinct (hm_days (activity_heatmap df))
   \<and> length (hm_days (activity_heatmap df)) \<le> 7
   \<and> ((\<forall>m \<in> set df. hour (date m) < 24) \<longrightarrow> length (hm_hours (activity_heatmap df)) \<le> 24)
   \<and> length (hm_cells (activity_heatmap df)) = length (hm_hours (activity_heatmap df))
   \<and> (\<forall>i < length (hm_hours (activity_heatmap df)).
         length (hm_cells (activity_heatmap df) ! i) = length (hm_days (activity_heatmap df))
         \<and> (\<forall>j < length (hm_days (activity_heatmap df)).
               hm_cells (activity_heatmap df) ! i ! j
               = length (filter (\<lambda>m. hour (date m) = hm_hours (activity_heatmap df) ! i
                                    \<and> weekday (date m) = hm_days (activity_heatmap df) ! j)
                   (filter_media df))))"
proof -
  let ?T = "filter_media df"
  let ?K = "sort_key (\<lambda>(d, h). day_name d) (sort_key snd
              (remdups (map (\<lambda>m. (weekday (date m), hour (date m))) ?T)))"
  define hs where "hs = sort (remdups (map snd ?K))"
  define used where "used = first_seen (map fst ?K)"
  define ds where "ds = (if length used = 7 then [0..<7] else used)"
  have h: "hm_hours (activity_heatmap df) = hs"
    and d: "hm_days (activity_heatmap df) = ds"
    and c: "hm_cells (activity_heatmap df) = map (\<lambda>h. map (\<lambda>d. length (filter
              (\<lambda>m. hour (date m) = h \<and> weekday (date m) = d) ?T)) ds) hs"
    by (simp_all add: activity_heatmap_def Let_def hs_def used_def ds_def)
  have wd: "weekday t < 7" for t
    by (simp add: weekday_def nat_less_iff)
  have 1: "set hs = (\<lambda>m. hour (date m)) ` set ?T" "sorted hs" "distinct hs"
    by (simp_all add: hs_def image_image)
  have u: "set used = (\<lambda>m. weekday (date m)) ` set ?T"
    unfolding used_def set_first_seen by (simp add: image_image)
  have du: "distinct used"
    unfolding used_def by (rule distinct_first_seen)
  have bu: "\<forall>x \<in> set used. x < 7"
    unfolding u using wd by blast
  have lu: "length used \<le> 7"
    using du bu by (rule distinct_bounded_length)
  have full: "set used = {0..<7}" if "length used = 7"
    using du bu that by (rule distinct_full_set)
  have 2: "set ds = (\<lambda>m. weekday (date m)) ` set ?T"
    using full u by (auto simp: ds_def)
  have 3: "distinct ds"
    using du by (simp add: ds_def)
  have 4: "length ds \<le> 7"
    using lu by (simp add: ds_def)
  have 5: "(\<forall>m \<in> set df. hour (date m) < 24) \<longrightarrow> length hs \<le> 24"
  proof
    assume a: "\<forall>m \<in> set df. hour (date m) < 24"
    have "\<forall>x \<in> set hs. x < 24"
      unfolding 1(1) using a by (auto simp: filter_media_def)
    then show "length hs \<le> 24"
      using 1(3) by (rule distinct_bounded_length[rotated])
  qed
  have 6: "length (map (\<lambda>h. map (\<lambda>d. length (filter
              (\<lambda>m. hour (date m) = h \<and> weekday (date m) = d) ?T)) ds) hs) = length hs"
    by (rule length_map)
  have 7: "\<forall>i < length hs.
         length (map (\<lambda>h. map (\<lambda>d. length (filter
              (\<lambda>m. hour (date m) = h \<and> weekday (date m) = d) ?T)) ds) hs ! i) = length ds
         \<and> (\<forall>j < length ds.
               map (\<lambda>h. map (\<lambda>d. length (filter
              (\<lambda>m. hour (date m) = h \<and> weekday (date m) = d) ?T)) ds) hs ! i ! j
               = length (filter (\<lambda>m. hour (date m) = hs ! i \<and> weekday (date m) = ds ! j) ?T))"
    by simp
  show ?thesis
    unfolding h d c by (intro conjI 1 2 3 4 5 6 7)
qed

theorem activity_heatmap_shape_witness:
  "activity_heatmap [row (jan23 1 10) ''Bob'' ''hi'', row (jan23 3 11) ''Al'' ''yo'',
                     row (jan23 3 10) ''Al'' ''ok'', row (jan23 4 9) ''Al'' ''?'']
   = \<lparr>hm_hours = [10, 11], hm_days = [6, 1], hm_cells = [[1, 1], [0, 1]]\<rparr>
   \<and> length (hm_hours (activity_heatmap
        [row (jan23 1 10) ''Bob'' ''hi'', row (jan23 3 11) ''Al'' ''yo'',
         row (jan23 3 10) ''Al'' ''ok'', row (jan23 4 9) ''Al'' ''?''])) \<le> 24"
proof -
  let ?df = "[row (jan23 1 10) ''Bob'' ''hi'', row (jan23 3 11) ''Al'' ''yo'',
              row (jan23 3 10) ''Al'' ''ok'', row (jan23 4 9) ''Al'' ''?'']"
  have e: "activity_heatmap ?df
           = \<lparr>hm_hours = [10, 11], hm_days = [6, 1], hm_cells = [[1, 1], [0, 1]]\<rparr>"
    by code_simp
  have b: "\<forall>m \<in> set ?df. hour (date m) < 24"
    by (simp add: row_def jan23_def)
  have "length (hm_hours (activity_heatmap ?df)) \<le> 24"
    using activity_heatmap_shape[of ?df] b by blast
  then show ?thesis
    using e by blast
qed

text \<open>
  One substantive message, on a Sunday at 10: the heat map is one row by one column.
\<close>

theorem activity_heatmap_sparse_counterexample:
  "activity_heatmap [row (jan23 1 10) ''Bob'' ''hi'']
   = \<lparr>hm_hours = [10], hm_days = [6], hm_cells = [[1]]\<rparr>"
  by code_simp

lemma bin_index_iff:
  assumes "0 \<le> a" and "0 < w"
  shows "nat (a div int w) = j \<longleftrightarrow> int (j * w) \<le> a \<and> a < int (Suc j * w)"
proof -
  obtain n where a: "a = int n"
    using assms(1) by (metis nat_0_le)
  have d: "nat (int n div int w) = n div w"
    by (simp add: zdiv_int[symmetric])
  have "n div w = j \<longleftrightarrow> j * w \<le> n \<and> n < Suc j * w"
  proof
    assume "n div w = j"
    then show "j * w \<le> n \<and> n < Suc j * w"
      using assms(2) dividend_less_div_times[of w n] div_times_less_eq_dividend[of n w]
      by (auto simp: algebra_simps)
  next
    assume "j * w \<le> n \<and> n < Suc j * w"
    then show "n div w = j"
      by (intro div_nat_eqI) (auto simp: algebra_simps)
  qed
  then show ?thesis
    unfolding a by (simp only: d of_nat_le_iff of_nat_less_iff)
qed

lemma mean_None_iff: "mean xs = None \<longleftrightarrow> xs = []"
  by (simp add: mean_def)

definition substantive_days :: "message list \<Rightarrow> int list" where
  "substantive_days df = map (\<lambda>m. days_from_civil (date m)) (filter_media df)"

text \<open>
  C5 (as the code has it). For a window of \<open>w\<close> days the series of a non-empty selection
  has a row for every window from the one that starts at midnight of the first day of a
  substantive message up to the one that holds the last; the label of the window number
  \<open>j\<close> is its first day; and the mean of a window is missing (\<open>NaN\<close>) exactly when no
  substantive message falls into it. So a window without messages between the first and
  the last message does produce a row. An empty selection gives no rows.
\<close>

theorem sentiment_time_series_windows:
  assumes "0 < w"
  shows "(filter_media df = [] \<longrightarrow> sentiment_time_series polarity w df = [])
    \<and> (filter_media df \<noteq> [] \<longrightarrow>
         length (sentiment_time_series polarity w df)
         = Suc (nat ((Max (set (substantive_days df)) - Min (set (substantive_days df))) div int w))
         \<and> (\<forall>j < length (sentiment_time_series polarity w df).
               fst (sentiment_time_series polarity w df ! j)
               = Min (set (substantive_days df)) + int (j * w)
               \<and> (snd (sentiment_time_series polarity w df ! j) = None
                  \<longleftrightarrow> \<not> (\<exists>m \<in> set (filter_media df).
                         Min (set (substantive_days df)) + int (j * w) \<le> days_from_civil (date m)
                         \<and> days_from_civil (date m)
                           < Min (set (substantive_days df)) + int (Suc j * w)))))"
proof (cases "filter_media df = []")
  case True
  then show ?thesis
    by (simp add: sentiment_time_series_def)
next
  case False
  let ?T = "filter_media df"
  let ?ds = "substantive_days df"
  let ?d0 = "Min (set ?ds)"
  let ?last = "nat ((Max (set ?ds) - ?d0) div int w)"
  let ?F = "\<lambda>j. (?d0 + int (j * w),
                mean (map (\<lambda>m. polarity (Message m))
                  (filter (\<lambda>m. nat ((days_from_civil (date m) - ?d0) div int w) = j) ?T)))"
  have ne: "?ds \<noteq> []"
    using False by (simp add: substantive_days_def)
  have S: "sentiment_time_series polarity w df = map ?F [0..<Suc ?last]"
    using False unfolding sentiment_time_series_def substantive_days_def Let_def
    by (simp del: upt_Suc)
  have len: "length (sentiment_time_series polarity w df) = Suc ?last"
    unfolding S by simp
  have row: "fst (sentiment_time_series polarity w df ! j) = ?d0 + int (j * w)
      \<and> (snd (sentiment_time_series polarity w df ! j) = None
          \<longleftrightarrow> \<not> (\<exists>m \<in> set ?T. ?d0 + int (j * w) \<le> days_from_civil (date m)
                               \<and> days_from_civil (date m) < ?d0 + int (Suc j * w)))"
    if j: "j < Suc ?last" for j
  proof -
    have nth: "sentiment_time_series polarity w df ! j = ?F j"
      unfolding S using j by (simp only: nth_map_upt length_upt add_0 diff_zero) 
    have bin: "nat ((days_from_civil (date m) - ?d0) div int w) = j
               \<longleftrightarrow> ?d0 + int (j * w) \<le> days_from_civil (date m)
                   \<and> days_from_civil (date m) < ?d0 + int (Suc j * w)"
      if m: "m \<in> set ?T" for m
    proof -
      have "days_from_civil (date m) \<in> set ?ds"
        using m by (simp add: substantive_days_def)
      then have "?d0 \<le> days_from_civil (date m)"
        by (intro Min_le) simp_all
      then have "0 \<le> days_from_civil (date m) - ?d0"
        by simp
      from bin_index_iff[OF this assms, of j] show ?thesis
        by linarith
    qed
    have "snd (?F j) = None
          \<longleftrightarrow> filter (\<lambda>m. nat ((days_from_civil (date m) - ?d0) div int w) = j) ?T = []"
      by (simp add: mean_None_iff)
    also have "\<dots> \<longleftrightarrow> \<not> (\<exists>m \<in> set ?T. nat ((days_from_civil (date m) - ?d0) div int w) = j)"
      by (simp add: filter_empty_conv)
    also have "\<dots> \<longleftrightarrow> \<not> (\<exists>m \<in> set ?T. ?d0 + int (j * w) \<le> days_from_civil (date m)
                               \<and> days_from_civil (date m) < ?d0 + int (Suc j * w))"
      using bin by blast
    finally show ?thesis
      unfolding nth by simp
  qed
  show ?thesis
    using False len row by (simp only: simp_thms) blast
qed

definition neutral_polarity :: "string \<Rightarrow> rat" where
  \<comment> \<open>the polarity of texts without any word of sentiment, for the examples\<close>
  "neutral_polarity s = 0"

theorem sentiment_time_series_windows_witness:
  "filter_media [row (jan23 1 10) ''Bob'' ''see you'', row (jan23 20 11) ''Al'' ''at nine''] \<noteq> []
   \<and> length (sentiment_time_series neutral_polarity 7
        [row (jan23 1 10) ''Bob'' ''see you'', row (jan23 20 11) ''Al'' ''at nine''])
      = Suc (nat ((Max (set (substantive_days
            [row (jan23 1 10) ''Bob'' ''see you'', row (jan23 20 11) ''Al'' ''at nine'']))
          - Min (set (substantive_days
            [row (jan23 1 10) ''Bob'' ''see you'', row (jan23 20 11) ''Al'' ''at nine'']))) div 7))
   \<and> sentiment_time_series neutral_polarity 7
        [row (jan23 1 10) ''Bob'' ''see you'', row (jan23 20 11) ''Al'' ''at nine'']
      = [(19358, Some 0), (19365, None), (19372, Some 0)]"
proof -
  let ?df = "[row (jan23 1 10) ''Bob'' ''see you'', row (jan23 20 11) ''Al'' ''at nine'']"
  have w: "0 < (7::nat)"
    by simp
  have ne: "filter_media ?df \<noteq> []"
    by code_simp
  have e: "sentiment_time_series neutral_polarity 7 ?df
           = [(19358, Some 0), (19365, None), (19372, Some 0)]"
    by code_simp
  have "length (sentiment_time_series neutral_polarity 7 ?df)
        = Suc (nat ((Max (set (substantive_days ?df)) - Min (set (substantive_days ?df)))
                div int 7))"
    using sentiment_time_series_windows[OF w, of ?df neutral_polarity] ne by blast
  then have "length (sentiment_time_series neutral_polarity 7 ?df)
        = Suc (nat ((Max (set (substantive_days ?df)) - Min (set (substantive_days ?df))) div 7))"
    by simp
  then show ?thesis
    using ne e by blast
qed

text \<open>
  Messages on 1 January and on 20 January 2023: the window that starts on 8 January holds
  no message, and the series has a row for it, with a missing mean.
\<close>

theorem sentiment_time_series_gap_counterexample:
  "sentiment_time_series neutral_polarity 7
     [row (jan23 1 10) ''Bob'' ''see you'', row (jan23 20 11) ''Al'' ''at nine'']
   = [(19358, Some 0), (19365, None), (19372, Some 0)]"
  by code_simp







section \<open>Synthetic transcripts\<close>

text \<open>
  An entry in the fixed format \<open><date>, <time> <am|pm> - <sender>: <body>\<close>, given by
  its parts, and the transcript of a sequence of entries, one entry per line.
\<close>

record entry =
  e_day :: string
  e_month :: string
  e_year :: string
  e_hour :: string
  e_minute :: string
  e_marker :: string
  e_sender :: string
  e_body :: string







subsection \<open>The pattern on a well-formed entry\<close>










lemma not_digit_punct [simp]:
  "\<not> is_digit CHR ''/''" "\<not> is_digit CHR '',''" "\<not> is_digit CHR '':''" "\<not> is_digit CHR '' ''"
  "\<not> is_digit CHR 0x0A"
  by (simp_all add: is_digit_def)




lemma is_space_blank [simp]: "is_space CHR '' ''"
  by (simp add: is_space_def)



















lemma match_at_Nil: "match_at [] = None"
  by (simp add: match_at_def entry_matches_def date_time_def date_prefix_def seq_def greedy_def)












section \<open>The letter case of the marker\<close>

text \<open>
  The letters of the marker in lower and in upper case, and a transcript in which the
  markers of the entries, in the order in which the scan finds them, are rewritten to
  chosen cases: a pair of flags for an entry says which of its two letters become
  capitals. Entries beyond the end of the list of choices are left as they are.
\<close>

definition low :: "char \<Rightarrow> char" where
  "low c = (if c = CHR ''A'' then CHR ''a'' else if c = CHR ''M'' then CHR ''m''
            else if c = CHR ''P'' then CHR ''p'' else c)"

definition up :: "char \<Rightarrow> char" where
  "up c = (if c = CHR ''a'' then CHR ''A'' else if c = CHR ''m'' then CHR ''M''
           else if c = CHR ''p'' then CHR ''P'' else c)"

definition set_case :: "bool \<Rightarrow> char \<Rightarrow> char" where
  "set_case u c = (if u then up c else low c)"

definition recase_marker :: "bool \<times> bool \<Rightarrow> string \<Rightarrow> string" where
  \<comment> \<open>the date and time of an entry with the two letters of its marker recased\<close>
  "recase_marker f d =
     (case rev d of
        y # x # pre \<Rightarrow> rev pre @ [set_case (fst f) x, set_case (snd f) y]
      | _ \<Rightarrow> d)"

function recase :: "(bool \<times> bool) list \<Rightarrow> string \<Rightarrow> string" where
  "recase fs s =
     (case match_at s of
        Some m \<Rightarrow>
          (case fs of
             [] \<Rightarrow> s
           | f # fs' \<Rightarrow>
               recase_marker f (g1 m) @ sep1 m @ g2 m @ sep2 m @ g3 m @ recase fs' (rest m))
      | None \<Rightarrow> (case s of [] \<Rightarrow> [] | c # cs \<Rightarrow> c # recase fs cs))"
  by pat_completeness auto
termination
  by (relation "measure (\<lambda>(fs, s). length s)") (auto dest: match_at_shorter)

declare recase.simps [simp del]

subsection \<open>The pattern does not see the case of these letters\<close>

definition natural :: "parser \<Rightarrow> bool" where
  "natural p = (\<forall>s. p (map low s) = map (\<lambda>(a, r). (map low a, map low r)) (p s))"

lemma low_low [simp]: "low (low c) = low c"
  by (simp add: low_def)

lemma low_up [simp]: "low (up c) = low c"
  by (simp add: low_def up_def)

lemma low_set_case [simp]: "low (set_case u c) = low c"
  by (simp add: set_case_def)

lemma natural_cls: "(\<And>x. P (low x) = P x) \<Longrightarrow> natural (cls P)"
  unfolding natural_def
proof
  fix s
  assume "\<And>x. P (low x) = P x"
  then show "cls P (map low s) = map (\<lambda>(a, r). (map low a, map low r)) (cls P s)"
    by (cases s) (simp_all add: cls_def)
qed

lemma natural_lit: "(\<And>x. (low x = c) = (x = c)) \<Longrightarrow> natural (lit c)"
  unfolding natural_def
proof
  fix s
  assume "\<And>x. (low x = c) = (x = c)"
  then show "lit c (map low s) = map (\<lambda>(a, r). (map low a, map low r)) (lit c s)"
    by (cases s) (auto simp: lit_def)
qed

lemma takeWhile_low:
  assumes "\<And>x. P (low x) = P x"
  shows "takeWhile P (map low s) = map low (takeWhile P s)"
  using assms by (induction s) simp_all

lemma natural_greedy:
  assumes "\<And>x. P (low x) = P x"
  shows "natural (greedy P lo hi)"
  unfolding natural_def
proof
  fix s
  have "takeWhile P (take hi (map low s)) = map low (takeWhile P (take hi s))"
    using takeWhile_low[of P "take hi s", OF assms] by (simp add: take_map)
  then show "greedy P lo hi (map low s) = map (\<lambda>(a, r). (map low a, map low r)) (greedy P lo hi s)"
    by (simp add: greedy_def Let_def take_map drop_map comp_def)
qed

lemma natural_lazy_plus:
  assumes "\<And>x. P (low x) = P x"
  shows "natural (lazy_plus P)"
  unfolding natural_def
proof
  fix s
  show "lazy_plus P (map low s) = map (\<lambda>(a, r). (map low a, map low r)) (lazy_plus P s)"
    by (simp add: lazy_plus_def Let_def takeWhile_low[of P, OF assms] take_map drop_map comp_def)
qed

lemma natural_seq:
  assumes "natural p" and "natural q"
  shows "natural (seq p q)"
  unfolding natural_def
proof
  fix s
  have p: "p (map low s) = map (\<lambda>(a, r). (map low a, map low r)) (p s)"
    using assms(1) by (simp add: natural_def)
  have q: "q (map low r) = map (\<lambda>(a, r). (map low a, map low r)) (q r)" for r
    using assms(2) by (simp add: natural_def)
  show "seq p q (map low s) = map (\<lambda>(a, r). (map low a, map low r)) (seq p q s)"
    unfolding seq_def p by (simp add: map_concat comp_def split_def q)
qed

lemma natural_alt:
  assumes "natural p" and "natural q"
  shows "natural (alt p q)"
  using assms by (simp add: natural_def alt_def)

lemma natural_am_pm: "natural am_pm"
  unfolding am_pm_def ci_def
  by (intro natural_alt natural_seq natural_cls) (auto simp: low_def)

lemma low_digit [simp]: "is_digit (low x) = is_digit x"
  by (auto simp: low_def is_digit_def)

lemma low_space [simp]: "is_space (low x) = is_space x"
  by (auto simp: low_def is_space_def)

lemma low_punct [simp]:
  "(low x = CHR ''/'') = (x = CHR ''/'')" "(low x = CHR '','') = (x = CHR '','')"
  "(low x = CHR '':'') = (x = CHR '':'')" "(low x = CHR ''-'') = (x = CHR ''-'')"
  "(low x = CHR 0x0A) = (x = CHR 0x0A)" "(low x = CHR '' '') = (x = CHR '' '')"
  by (auto simp: low_def)

lemma natural_date_prefix: "natural date_prefix"
  unfolding date_prefix_def
  by (intro natural_seq natural_greedy natural_lit) simp_all

lemma natural_date_time: "natural date_time"
  unfolding date_time_def
  by (intro natural_seq natural_greedy natural_lit natural_cls natural_date_prefix natural_am_pm)
    simp_all

lemma natural_dash: "natural dash"
  unfolding dash_def
  by (intro natural_seq natural_lit natural_cls) simp_all

lemma natural_colon_space: "natural colon_space"
  unfolding colon_space_def
  by (intro natural_seq natural_lit natural_cls) simp_all

lemma lookahead_low: "lookahead (map low r) = lookahead r"
proof -
  have "natural (seq (lit CHR 0x0A) date_prefix)"
    by (intro natural_seq natural_lit natural_date_prefix) simp_all
  then have "seq (lit CHR 0x0A) date_prefix (map low r)
             = map (\<lambda>(a, r). (map low a, map low r)) (seq (lit CHR 0x0A) date_prefix r)"
    by (simp add: natural_def)
  then show ?thesis
    by (simp add: lookahead_def)
qed

definition low_match :: "entry_match \<Rightarrow> entry_match" where
  "low_match m = \<lparr>g1 = map low (g1 m), sep1 = map low (sep1 m), g2 = map low (g2 m),
                  sep2 = map low (sep2 m), g3 = map low (g3 m), rest = map low (rest m)\<rparr>"

lemma naturalD: "natural p \<Longrightarrow> p (map low s) = map (\<lambda>(a, r). (map low a, map low r)) (p s)"
  by (simp add: natural_def)

lemma concat_map_natural:
  assumes "natural p"
    and "\<And>a r. G (map low a) (map low r) = map h (F a r)"
  shows "concat (map (\<lambda>(a, r). G a r) (p (map low s)))
         = map h (concat (map (\<lambda>(a, r). F a r) (p s)))"
  by (simp add: naturalD[OF assms(1)] assms(2) map_concat comp_def split_def)

lemma entry_matches_low: "entry_matches (map low s) = map low_match (entry_matches s)"
proof -
  have lp: "natural (lazy_plus (\<lambda>x. x \<noteq> CHR '':''))"
    by (rule natural_lazy_plus) simp
  have la: "natural (lazy_plus (\<lambda>x. True))"
    by (rule natural_lazy_plus) simp
  show ?thesis
    unfolding entry_matches_def
    apply (rule concat_map_natural[OF natural_date_time])
    apply (rule concat_map_natural[OF natural_dash])
    apply (rule concat_map_natural[OF lp])
    apply (rule concat_map_natural[OF natural_colon_space])
    apply (rule concat_map_natural[OF la])
    apply (simp add: lookahead_low low_match_def)
    done
qed

lemma match_at_low:
  "match_at (map low s) = map_option low_match (match_at s)"
  by (simp add: match_at_def entry_matches_low split: list.splits)

lemma low_match_lengths:
  assumes "low_match m' = low_match m"
  shows "length (g1 m') = length (g1 m)" and "length (sep1 m') = length (sep1 m)"
    and "length (g2 m') = length (g2 m)" and "length (sep2 m') = length (sep2 m)"
    and "length (g3 m') = length (g3 m)" and "length (rest m') = length (rest m)"
  using assms unfolding low_match_def by (auto dest: map_eq_imp_length_eq)

lemma match_at_same_case:
  assumes "map low s' = map low s"
  shows "(match_at s = None \<longrightarrow> match_at s' = None)
       \<and> (\<forall>m. match_at s = Some m \<longrightarrow>
             (\<exists>m'. match_at s' = Some m' \<and> low_match m' = low_match m))"
proof -
  have "map_option low_match (match_at s') = map_option low_match (match_at s)"
    using assms match_at_low[of s] match_at_low[of s'] by simp
  then show ?thesis
    by (cases "match_at s"; cases "match_at s'") simp_all
qed

subsection \<open>The scan of a recased transcript\<close>

lemma recase_marker_low: "map low (recase_marker f d) = map low d"
proof (cases "rev d")
  case Nil
  then show ?thesis by (simp add: recase_marker_def)
next
  case (Cons y t)
  show ?thesis
  proof (cases t)
    case Nil
    then show ?thesis using Cons by (simp add: recase_marker_def)
  next
    case (Cons x pre)
    have "rev (rev d) = rev (y # x # pre)"
      using \<open>rev d = y # t\<close> Cons by simp
    then have d: "d = rev pre @ [x, y]"
      by simp
    have "recase_marker f d = rev pre @ [set_case (fst f) x, set_case (snd f) y]"
      using \<open>rev d = y # t\<close> Cons by (simp add: recase_marker_def)
    then show ?thesis
      by (simp add: d)
  qed
qed

lemma recase_marker_length: "length (recase_marker f d) = length d"
  using recase_marker_low[of f d] by (rule map_eq_imp_length_eq)

lemma match_at_parts: "match_at s = Some m \<Longrightarrow> s = g1 m @ sep1 m @ g2 m @ sep2 m @ g3 m @ rest m"
  by (rule entry_matches_parts(1)) (rule match_at_in)

lemma recase_Some:
  "match_at s = Some m \<Longrightarrow>
     recase (f # fs) s
     = recase_marker f (g1 m) @ sep1 m @ g2 m @ sep2 m @ g3 m @ recase fs (rest m)"
  by (subst recase.simps) simp

lemma recase_Some_Nil: "match_at s = Some m \<Longrightarrow> recase [] s = s"
  by (subst recase.simps) simp

lemma recase_None_Cons: "match_at (c # cs) = None \<Longrightarrow> recase fs (c # cs) = c # recase fs cs"
  by (subst recase.simps) simp

lemma recase_Nil: "recase fs [] = []"
  by (subst recase.simps) (simp add: match_at_Nil)

lemma recase_low: "map low (recase fs s) = map low s"
proof (induction fs s rule: recase.induct)
  case (1 fs s)
  show ?case
  proof (cases "match_at s")
    case None
    show ?thesis
    proof (cases s)
      case Nil
      then show ?thesis by (simp add: recase_Nil)
    next
      case (Cons c cs)
      have "map low (recase fs cs) = map low cs"
        using None Cons by (rule 1(1))
      moreover have "recase fs (c # cs) = c # recase fs cs"
        using None Cons by (intro recase_None_Cons) simp
      ultimately show ?thesis
        by (simp add: Cons)
    qed
  next
    case (Some m)
    show ?thesis
    proof (cases fs)
      case Nil
      then show ?thesis using Some by (simp add: recase_Some_Nil)
    next
      case (Cons f fs')
      have ih: "map low (recase fs' (rest m)) = map low (rest m)"
        using Some Cons by (rule 1(2))
      have "map low s = map low (g1 m @ sep1 m @ g2 m @ sep2 m @ g3 m @ rest m)"
        using match_at_parts[OF Some] by (rule arg_cong)
      moreover have "map low (recase fs s)
                     = map low (g1 m @ sep1 m @ g2 m @ sep2 m @ g3 m @ rest m)"
        unfolding Cons recase_Some[OF Some] by (simp add: recase_marker_low ih)
      ultimately show ?thesis
        by simp
    qed
  qed
qed

lemma match_at_recase:
  assumes "match_at s = Some m"
  shows "match_at (recase (f # fs) s)
         = Some \<lparr>g1 = recase_marker f (g1 m), sep1 = sep1 m, g2 = g2 m, sep2 = sep2 m,
                 g3 = g3 m, rest = recase fs (rest m)\<rparr>"
proof -
  define s' where "s' = recase (f # fs) s"
  have l: "map low s' = map low s"
    unfolding s'_def by (rule recase_low)
  then obtain m' where m': "match_at s' = Some m'" and e: "low_match m' = low_match m"
    using match_at_same_case[of s' s] assms by blast
  note n = low_match_lengths[OF e]
  have "length (recase fs (rest m)) = length (rest m)"
    using recase_low[of fs "rest m"] by (rule map_eq_imp_length_eq)
  have a: "s' = recase_marker f (g1 m) @ sep1 m @ g2 m @ sep2 m @ g3 m @ recase fs (rest m)"
    unfolding s'_def by (rule recase_Some[OF assms])
  have b: "s' = g1 m' @ sep1 m' @ g2 m' @ sep2 m' @ g3 m' @ rest m'"
    by (rule match_at_parts[OF m'])
  have "g1 m' @ sep1 m' @ g2 m' @ sep2 m' @ g3 m' @ rest m'
        = recase_marker f (g1 m) @ sep1 m @ g2 m @ sep2 m @ g3 m @ recase fs (rest m)"
    using a b by simp
  then have "g1 m' = recase_marker f (g1 m) \<and> sep1 m' = sep1 m \<and> g2 m' = g2 m
             \<and> sep2 m' = sep2 m \<and> g3 m' = g3 m \<and> rest m' = recase fs (rest m)"
    using n by (simp add: recase_marker_length)
  then have "m' = \<lparr>g1 = recase_marker f (g1 m), sep1 = sep1 m, g2 = g2 m, sep2 = sep2 m,
                 g3 = g3 m, rest = recase fs (rest m)\<rparr>"
    by (cases m') simp
  then show ?thesis
    using m' by (simp add: s'_def)
qed

lemma match_at_recase_None:
  assumes "match_at (c # cs) = None"
  shows "match_at (c # recase fs cs) = None"
proof -
  have "map low (c # recase fs cs) = map low (c # cs)"
    by (simp add: recase_low)
  then show ?thesis
    using match_at_same_case[of "c # recase fs cs" "c # cs"] assms by blast
qed

lemma findall_Some: "match_at s = Some m \<Longrightarrow> findall s = m # findall (rest m)"
  by (subst findall.simps) simp

lemma findall_None_Cons: "match_at (c # cs) = None \<Longrightarrow> findall (c # cs) = findall cs"
  by (subst findall.simps) simp

lemma findall_recase:
  "map (\<lambda>m. map low (g1 m)) (findall (recase fs s)) = map (\<lambda>m. map low (g1 m)) (findall s)
   \<and> map g2 (findall (recase fs s)) = map g2 (findall s)
   \<and> map g3 (findall (recase fs s)) = map g3 (findall s)"
proof (induction fs s rule: recase.induct)
  case (1 fs s)
  show ?case
  proof (cases "match_at s")
    case None
    show ?thesis
    proof (cases s)
      case Nil
      then show ?thesis by (simp add: recase_Nil)
    next
      case (Cons c cs)
      note ih = 1(1)[OF None Cons]
      have n: "match_at (c # cs) = None"
        using None Cons by simp
      have "recase fs s = c # recase fs cs"
        unfolding Cons by (rule recase_None_Cons[OF n])
      moreover have "findall (c # recase fs cs) = findall (recase fs cs)"
        by (rule findall_None_Cons[OF match_at_recase_None[OF n]])
      moreover have "findall s = findall cs"
        unfolding Cons by (rule findall_None_Cons[OF n])
      ultimately show ?thesis
        using ih by simp
    qed
  next
    case (Some m)
    show ?thesis
    proof (cases fs)
      case Nil
      then show ?thesis using Some by (simp add: recase_Some_Nil)
    next
      case (Cons f fs')
      note ih = 1(2)[OF Some Cons]
      have "findall (recase fs s)
            = \<lparr>g1 = recase_marker f (g1 m), sep1 = sep1 m, g2 = g2 m, sep2 = sep2 m,
                 g3 = g3 m, rest = recase fs' (rest m)\<rparr> # findall (recase fs' (rest m))"
        unfolding Cons using findall_Some[OF match_at_recase[OF Some, of f fs']] by simp
      moreover have "findall s = m # findall (rest m)"
        by (rule findall_Some[OF Some])
      ultimately show ?thesis
        using ih by (simp add: recase_marker_low)
    qed
  qed
qed

subsection \<open>Reading the date and time does not see the case\<close>

lemma low_eq_iff: "c \<notin> set ''aAmMpP'' \<Longrightarrow> (low x = c) = (x = c)"
  by (auto simp: low_def)

lemma low_nonzero_digit [simp]: "is_nonzero_digit (low x) = is_nonzero_digit x"
  by (auto simp: low_def is_nonzero_digit_def)

lemma natural_re_d: "natural re_d"
  unfolding re_d_def
  by (intro natural_alt natural_seq natural_lit natural_cls) (simp_all add: low_eq_iff)

lemma natural_re_m: "natural re_m"
  unfolding re_m_def
  by (intro natural_alt natural_seq natural_lit natural_cls) (simp_all add: low_eq_iff)

lemma natural_re_y: "natural re_y"
  unfolding re_y_def
  by (intro natural_seq natural_cls) simp_all

lemma natural_re_M: "natural re_M"
  unfolding re_M_def
  by (intro natural_alt natural_seq natural_cls) (simp_all add: low_eq_iff)

lemma natural_spaces: "natural spaces"
  unfolding natural_def
proof
  fix s :: string
  have "natural (greedy is_space 1 (length s))"
    by (rule natural_greedy) simp
  then show "spaces (map low s) = map (\<lambda>(a, r). (map low a, map low r)) (spaces s)"
    by (simp add: spaces_def natural_def)
qed

lemma natural_slash: "natural (lit CHR ''/'')"
  by (rule natural_lit) simp

lemma natural_comma: "natural (lit CHR '','')"
  by (rule natural_lit) simp

lemma natural_colon: "natural (lit CHR '':'')"
  by (rule natural_lit) simp

lemma strptime_matches_low:
  "strptime_matches (map low s)
   = map (\<lambda>(d, m, y, i, mi, p, r).
            (map low d, map low m, map low y, map low i, map low mi, map low p, map low r))
       (strptime_matches s)"
  unfolding strptime_matches_def
  apply (rule concat_map_natural[OF natural_re_d])
  apply (rule concat_map_natural[OF natural_slash])
  apply (rule concat_map_natural[OF natural_re_m])
  apply (rule concat_map_natural[OF natural_slash])
  apply (rule concat_map_natural[OF natural_re_y])
  apply (rule concat_map_natural[OF natural_comma])
  apply (rule concat_map_natural[OF natural_spaces])
  apply (rule concat_map_natural[OF natural_re_m])
  apply (rule concat_map_natural[OF natural_colon])
  apply (rule concat_map_natural[OF natural_re_M])
  apply (rule concat_map_natural[OF natural_spaces])
  apply (simp add: naturalD[OF natural_am_pm] comp_def split_def)
  done

lemma digit_low: "is_digit x \<Longrightarrow> low x = x"
  by (auto simp: low_def is_digit_def)

lemma int_of_low: "int_of (map low s) = int_of s"
proof -
  have "filter is_digit (map low s) = filter is_digit s"
    by (induction s) (simp_all add: digit_low)
  then show ?thesis
    by (simp add: int_of_def)
qed

lemma hd_low:
  "(hd (map low p) = CHR ''a'' \<or> hd (map low p) = CHR ''A'') = (hd p = CHR ''a'' \<or> hd p = CHR ''A'')"
  by (cases p) (auto simp: low_def)

lemma strptime_low: "strptime (map low s) = strptime s"
proof (cases "strptime_matches s")
  case Nil
  then show ?thesis
    by (simp add: strptime_def strptime_matches_low)
next
  case (Cons t ts)
  obtain d m y i mi p r where t: "t = (d, m, y, i, mi, p, r)"
    by (cases t) auto
  have a: "strptime_matches s = (d, m, y, i, mi, p, r) # ts"
    using Cons t by simp
  have b: "strptime_matches (map low s)
           = (map low d, map low m, map low y, map low i, map low mi, map low p, map low r)
               # map (\<lambda>(d, m, y, i, mi, p, r).
                   (map low d, map low m, map low y, map low i, map low mi, map low p, map low r)) ts"
    by (simp add: strptime_matches_low a)
  show ?thesis
    unfolding strptime_def a b by (simp add: Let_def int_of_low hd_low)
qed

lemma strptime_same_case: "map low d' = map low d \<Longrightarrow> strptime d' = strptime d"
  using strptime_low[of d] strptime_low[of d'] by simp

lemma to_datetime_cong: "map strptime ds' = map strptime ds \<Longrightarrow> to_datetime ds' = to_datetime ds"
proof (induction ds arbitrary: ds')
  case Nil
  then show ?case by simp
next
  case (Cons d ds)
  then obtain d' ds'' where e: "ds' = d' # ds''" "strptime d' = strptime d"
    "map strptime ds'' = map strptime ds"
    by (cases ds') auto
  then show ?case
    using Cons.IH[of ds''] by (simp split: option.splits)
qed

text \<open>
  C10. The marker of the time of an entry is accepted in any letter case. Take any
  transcript and rewrite the markers of its entries, each to any choice of small and
  capital letters (\<open>am\<close> to \<open>AM\<close>, \<open>Am\<close> or \<open>aM\<close>, \<open>pm\<close> to \<open>PM\<close>, \<open>Pm\<close> or \<open>pM\<close>, or back to small
  letters): \<open>preprocess\<close> returns the same result, the same rows with the same time
  stamps, senders and messages, or the same error.
\<close>

theorem preprocess_recase: "preprocess (recase fs data) = preprocess data"
proof -
  note f = findall_recase[of fs data]
  have "map strptime (map g1 (findall (recase fs data)))
        = map (\<lambda>d. strptime d) (map (\<lambda>m. map low (g1 m)) (findall (recase fs data)))"
    by (simp add: strptime_low)
  also have "\<dots> = map (\<lambda>d. strptime d) (map (\<lambda>m. map low (g1 m)) (findall data))"
    using f by simp
  also have "\<dots> = map strptime (map g1 (findall data))"
    by (simp add: strptime_low)
  finally have d: "to_datetime (map g1 (findall (recase fs data)))
                   = to_datetime (map g1 (findall data))"
    by (rule to_datetime_cong)
  have "map (\<lambda>m. strip (g3 m)) (findall (recase fs data))
        = map strip (map g3 (findall (recase fs data)))"
    by simp
  also have "\<dots> = map strip (map g3 (findall data))"
    using f by simp
  also have "\<dots> = map (\<lambda>m. strip (g3 m)) (findall data)"
    by simp
  finally have b: "map (\<lambda>m. strip (g3 m)) (findall (recase fs data))
                   = map (\<lambda>m. strip (g3 m)) (findall data)" .
  have u: "user_messages (recase fs data) = user_messages data"
    unfolding user_messages_def Let_def b using f by simp
  show ?thesis
    unfolding preprocess_def Let_def u d ..
qed

theorem preprocess_recase_witness:
  "recase [(True, True), (False, True)]
     (''1/1/23, 10:00 am - Alice: Hello'' @ [CHR 0x0A] @ ''1/1/23, 11:05 pm - Bob: am I late'')
   = ''1/1/23, 10:00 AM - Alice: Hello'' @ [CHR 0x0A] @ ''1/1/23, 11:05 pM - Bob: am I late''
   \<and> preprocess
        (''1/1/23, 10:00 AM - Alice: Hello'' @ [CHR 0x0A] @ ''1/1/23, 11:05 pM - Bob: am I late'')
     = Inr [\<lparr>date = \<lparr>year = 2023, month = 1, day = 1, hour = 10, minute = 0\<rparr>,
             Sender = ''Alice'', Message = ''Hello''\<rparr>,
            \<lparr>date = \<lparr>year = 2023, month = 1, day = 1, hour = 23, minute = 5\<rparr>,
             Sender = ''Bob'', Message = ''am I late''\<rparr>]"
proof -
  let ?s = "''1/1/23, 10:00 am - Alice: Hello'' @ [CHR 0x0A] @ ''1/1/23, 11:05 pm - Bob: am I late''"
  let ?s' = "''1/1/23, 10:00 AM - Alice: Hello'' @ [CHR 0x0A] @ ''1/1/23, 11:05 pM - Bob: am I late''"
  have r: "recase [(True, True), (False, True)] ?s = ?s'"
    by code_simp
  have p: "preprocess ?s
     = Inr [\<lparr>date = \<lparr>year = 2023, month = 1, day = 1, hour = 10, minute = 0\<rparr>,
             Sender = ''Alice'', Message = ''Hello''\<rparr>,
            \<lparr>date = \<lparr>year = 2023, month = 1, day = 1, hour = 23, minute = 5\<rparr>,
             Sender = ''Bob'', Message = ''am I late''\<rparr>]"
    by code_simp
  have "preprocess ?s' = preprocess ?s"
    using preprocess_recase[of "[(True, True), (False, True)]" ?s] unfolding r .
  then have q: "preprocess ?s'
     = Inr [\<lparr>date = \<lparr>year = 2023, month = 1, day = 1, hour = 10, minute = 0\<rparr>,
             Sender = ''Alice'', Message = ''Hello''\<rparr>,
            \<lparr>date = \<lparr>year = 2023, month = 1, day = 1, hour = 23, minute = 5\<rparr>,
             Sender = ''Bob'', Message = ''am I late''\<rparr>]"
    using p by (rule trans)
  show ?thesis
    by (intro conjI r q)
qed

end
